theory Spec2Isabelle
  imports Main
begin

section \<open>Data model\<close>

text \<open>
  Numbers of the source are JavaScript numbers. Every number of the analysis pipeline is
  an integer: it is read by \<open>parseInt\<close> from a run of decimal digits, negated,
  multiplied by 10000, subtracted or compared. They are modelled as \<open>int\<close>; the
  model does not cover digit runs so long that a double would lose precision.
  Strings are lists of characters (code units below 256).
\<close>

datatype eval_type = Cp | Mate

text \<open>\<open>StockfishEval\<close> of types.ts (fields type, value, bestMove, pv).\<close>

record StockfishEval =
  eval_type :: eval_type
  eval_value :: int
  bestMove :: string
  pv :: "string list"

datatype classification =
  Blunder | Mistake | Inaccuracy | Good | Excellent | Great | Best | Brilliant

text \<open>One element of the array returned by \<open>analyzeGame\<close> (stockfish.ts).\<close>

record ply_result =
  ply :: nat
  moveNumber :: nat
  fen :: string
  movePlayed :: string
  movePlayedUci :: string
  evaluation :: StockfishEval
  isUserMove :: bool

text \<open>\<open>MoveAnalysis\<close> of types.ts; \<open>ma_ply\<close> and \<open>ma_fen\<close> are its fields ply and fen.\<close>

record MoveAnalysis =
  game_id :: string
  move_number :: nat
  ma_ply :: nat
  ma_fen :: string
  move_played :: string
  best_move :: string
  eval_before :: int
  eval_after :: int
  cp_loss :: int
  classification :: classification
  is_user_move :: bool

section \<open>Move classification (analyzer.ts)\<close>

definition BLUNDER_THRESHOLD :: int where "BLUNDER_THRESHOLD = 200"
definition MISTAKE_THRESHOLD :: int where "MISTAKE_THRESHOLD = 100"
definition INACCURACY_THRESHOLD :: int where "INACCURACY_THRESHOLD = 50"

definition classifyMove :: "int \<Rightarrow> bool \<Rightarrow> int \<Rightarrow> int \<Rightarrow> bool \<Rightarrow> classification" where
  "classifyMove cpLoss isBestMove evalBefore evalAfter isWhite =
     (if cpLoss \<ge> BLUNDER_THRESHOLD then Blunder
      else if cpLoss \<ge> MISTAKE_THRESHOLD then Mistake
      else if cpLoss \<ge> INACCURACY_THRESHOLD then Inaccuracy
      else if isBestMove then
        (let improvement = (if isWhite then evalAfter - evalBefore else evalBefore - evalAfter)
         in if improvement > 80 \<and> \<bar>evalBefore\<bar> < 200 then Brilliant
            else if improvement > 40 then Great
            else Best)
      else if cpLoss < 15 then Excellent
      else Good)"

text \<open>
  The priority table of the specification (section 4.6), row by row with the conditions
  as the table writes them; the first row that applies gives the label.
\<close>

definition spec_improvement :: "int \<Rightarrow> int \<Rightarrow> bool \<Rightarrow> int" where
  "spec_improvement evalBefore evalAfter movingSideIsWhite =
     (if movingSideIsWhite then evalAfter - evalBefore else evalBefore - evalAfter)"

definition spec_classify :: "int \<Rightarrow> bool \<Rightarrow> int \<Rightarrow> int \<Rightarrow> bool \<Rightarrow> classification" where
  "spec_classify cpLoss isBestMove evalBefore evalAfter white =
     (if cpLoss \<ge> 200 then Blunder
      else if 100 \<le> cpLoss \<and> cpLoss < 200 then Mistake
      else if 50 \<le> cpLoss \<and> cpLoss < 100 then Inaccuracy
      else if cpLoss < 50 \<and> isBestMove \<and> spec_improvement evalBefore evalAfter white > 80
              \<and> \<bar>evalBefore\<bar> < 200 then Brilliant
      else if cpLoss < 50 \<and> isBestMove \<and> spec_improvement evalBefore evalAfter white > 40
        then Great
      else if cpLoss < 50 \<and> isBestMove then Best
      else if cpLoss < 50 \<and> \<not> isBestMove \<and> cpLoss < 15 then Excellent
      else Good)"

section \<open>Centipawn loss and move records (routes/analysis.ts, ipcHandlers.ts)\<close>

text \<open>
  \<open>toLowerCase\<close> and \<open>trim\<close> of JavaScript strings, on the characters of the UCI
  protocol: ASCII letters are lowered; the white space removed at both ends is
  tab, line feed, vertical tab, form feed, carriage return, space and no-break space.
\<close>

definition lower_char :: "char \<Rightarrow> char" where
  "lower_char c =
     (if 65 \<le> (of_char c :: nat) \<and> (of_char c :: nat) \<le> 90
      then char_of ((of_char c :: nat) + 32) else c)"

definition toLowerCase :: "string \<Rightarrow> string" where
  "toLowerCase s = map lower_char s"

definition is_space :: "char \<Rightarrow> bool" where
  "is_space c = ((of_char c :: nat) \<in> {9, 10, 11, 12, 13, 32, 160})"

definition trim :: "string \<Rightarrow> string" where
  "trim s = rev (dropWhile is_space (rev (dropWhile is_space s)))"

text \<open>
  The conversion at the head of the loop body:
  \<open>e.type === 'mate' ? e.value * 10000 : e.value\<close>.
\<close>

definition normalize_eval :: "StockfishEval \<Rightarrow> int" where
  "normalize_eval e = (if eval_type e = Mate then eval_value e * 10000 else eval_value e)"

text \<open>
  One iteration of the loop over \<open>analysisResults\<close>: \<open>current\<close> is
  \<open>analysisResults[i]\<close>, \<open>next\<close> is \<open>analysisResults[i + 1]\<close>, which is
  \<open>undefined\<close> (here \<open>None\<close>) behind the last element.
\<close>

definition move_record :: "string \<Rightarrow> ply_result \<Rightarrow> ply_result option \<Rightarrow> MoveAnalysis" where
  "move_record gid current next =
     (let evalBefore = normalize_eval (evaluation current);
          evalAfter = (case next of
                         Some n \<Rightarrow> normalize_eval (evaluation n)
                       | None \<Rightarrow> evalBefore);
          isWhiteMove = (ply current mod 2 = 1);
          cpLoss0 = (if isWhiteMove then evalBefore - evalAfter else evalAfter - evalBefore);
          cpLoss = max 0 cpLoss0;
          isBestMove = (trim (toLowerCase (movePlayedUci current))
                          = trim (toLowerCase (bestMove (evaluation current))))
      in \<lparr> game_id = gid,
           move_number = moveNumber current,
           ma_ply = ply current,
           ma_fen = fen current,
           move_played = movePlayed current,
           best_move = bestMove (evaluation current),
           eval_before = evalBefore,
           eval_after = evalAfter,
           cp_loss = cpLoss,
           classification = classifyMove cpLoss isBestMove evalBefore evalAfter isWhiteMove,
           is_user_move = isUserMove current \<rparr>)"

text \<open>The loop \<open>for (let i = 0; i < analysisResults.length; i++)\<close>, collecting \<open>moves\<close>.\<close>

fun analyse_moves :: "string \<Rightarrow> ply_result list \<Rightarrow> MoveAnalysis list" where
  "analyse_moves gid [] = []"
| "analyse_moves gid (current # rest) =
     move_record gid current (case rest of [] \<Rightarrow> None | n # _ \<Rightarrow> Some n)
       # analyse_moves gid rest"

text \<open>
  A result with its evaluation replaced by the centipawn evaluation of the same
  normalized value. It is not part of the program: it states that nothing behind the
  conversion reads the kind of an evaluation.
\<close>

definition as_centipawns :: "ply_result \<Rightarrow> ply_result" where
  "as_centipawns r =
     r\<lparr>evaluation :=
         (evaluation r)\<lparr>eval_type := Cp, eval_value := normalize_eval (evaluation r)\<rparr>\<rparr>"

text \<open>Sample input: a game of two plies, the first losing 50 centipawns for White.\<close>

abbreviation sample_ply1 :: ply_result where
  "sample_ply1 \<equiv>
     \<lparr> ply = 1, moveNumber = 1, fen = ''start'', movePlayed = ''e4'',
       movePlayedUci = ''e2e4'',
       evaluation = \<lparr> eval_type = Cp, eval_value = 30, bestMove = ''d2d4'', pv = [''d2d4''] \<rparr>,
       isUserMove = True \<rparr>"

abbreviation sample_ply2 :: ply_result where
  "sample_ply2 \<equiv>
     \<lparr> ply = 2, moveNumber = 1, fen = ''after e4'', movePlayed = ''e5'',
       movePlayedUci = ''e7e5'',
       evaluation = \<lparr> eval_type = Cp, eval_value = - 20, bestMove = '' E7E5'', pv = [] \<rparr>,
       isUserMove = False \<rparr>"

section \<open>Position evaluator (stockfish.ts, \<open>StockfishPool.runEvaluation\<close>)\<close>

subsection \<open>String operations of the parser\<close>

text \<open>\<open>s.startsWith(p)\<close> and \<open>s.split(sep)\<close> for a separator of one character.\<close>

fun startsWith :: "string \<Rightarrow> string \<Rightarrow> bool" where
  "startsWith s [] = True"
| "startsWith [] (p # ps) = False"
| "startsWith (c # s) (p # ps) = (c = p \<and> startsWith s ps)"

fun split_on :: "char \<Rightarrow> string \<Rightarrow> string list" where
  "split_on sep [] = [[]]"
| "split_on sep (c # cs) =
     (if c = sep then [] # split_on sep cs
      else (case split_on sep cs of
              x # xs \<Rightarrow> (c # x) # xs
            | [] \<Rightarrow> [[c]]))"

text \<open>
  \<open>parseInt\<close> on the strings the parser gives it: a run of decimal digits, with a
  minus sign in front for a score.
\<close>

definition is_digit :: "char \<Rightarrow> bool" where
  "is_digit c = (48 \<le> (of_char c :: nat) \<and> (of_char c :: nat) \<le> 57)"

definition digit_val :: "char \<Rightarrow> nat" where
  "digit_val c = (of_char c :: nat) - 48"

definition parse_digits :: "string \<Rightarrow> nat" where
  "parse_digits ds = foldl (\<lambda>n c. 10 * n + digit_val c) 0 ds"

definition parseInt :: "string \<Rightarrow> int" where
  "parseInt s = (case s of
                   [] \<Rightarrow> 0
                 | c # cs \<Rightarrow> if c = CHR ''-'' then - int (parse_digits cs)
                            else int (parse_digits (c # cs)))"

text \<open>
  \<open>line.match(/depth (\d+)/)\<close>: the leftmost place where \<open>depth\<close>, a space and at
  least one digit follow; the result is the captured run of digits.
\<close>

fun match_depth :: "string \<Rightarrow> string option" where
  "match_depth [] = None"
| "match_depth (c # cs) =
     (if startsWith (c # cs) ''depth '' \<and> takeWhile is_digit (drop 6 (c # cs)) \<noteq> []
      then Some (takeWhile is_digit (drop 6 (c # cs)))
      else match_depth cs)"

text \<open>
  \<open>line.match(/score (cp|mate) (-?\d+)/)\<close>: the leftmost place where \<open>score\<close>, the
  kind, a space, an optional minus sign and at least one digit follow; the result is the
  kind and the captured number text.
\<close>

definition signed_digits :: "string \<Rightarrow> string option" where
  "signed_digits s =
     (case s of
        [] \<Rightarrow> None
      | c # cs \<Rightarrow>
          if c = CHR ''-''
          then (if takeWhile is_digit cs \<noteq> [] then Some (c # takeWhile is_digit cs) else None)
          else (if takeWhile is_digit (c # cs) \<noteq> [] then Some (takeWhile is_digit (c # cs))
                else None))"

definition score_at :: "string \<Rightarrow> (eval_type \<times> string) option" where
  "score_at s =
     (if startsWith s ''score cp '' then map_option (Pair Cp) (signed_digits (drop 9 s))
      else if startsWith s ''score mate '' then map_option (Pair Mate) (signed_digits (drop 11 s))
      else None)"

fun match_score :: "string \<Rightarrow> (eval_type \<times> string) option" where
  "match_score [] = None"
| "match_score (c # cs) =
     (case score_at (c # cs) of
        Some m \<Rightarrow> Some m
      | None \<Rightarrow> match_score cs)"

text \<open>
  \<open>line.match(/pv (.+)/)\<close>: the leftmost place where \<open>pv\<close>, a space and at least
  one character other than a line terminator follow; the capture runs up to the next line
  terminator.
\<close>

definition dot_char :: "char \<Rightarrow> bool" where
  "dot_char c = (c \<noteq> CHR 0x0A \<and> c \<noteq> CHR 0x0D)"

fun match_pv :: "string \<Rightarrow> string option" where
  "match_pv [] = None"
| "match_pv (c # cs) =
     (if startsWith (c # cs) ''pv '' \<and> takeWhile dot_char (drop 3 (c # cs)) \<noteq> []
      then Some (takeWhile dot_char (drop 3 (c # cs)))
      else match_pv cs)"

text \<open>\<open>fen.split(' ')[1]\<close>, which is \<open>undefined\<close> (here \<open>None\<close>) without a second field.\<close>

definition side_to_move :: "string \<Rightarrow> string option" where
  "side_to_move fenText = (case split_on CHR '' '' fenText of _ # f # _ \<Rightarrow> Some f | _ \<Rightarrow> None)"

subsection \<open>The data handler of one request\<close>

text \<open>
  The block \<open>if (line.startsWith('info depth')) { ... }\<close> of \<open>onData\<close>: the
  evaluation it assigns to the variable \<open>evaluation\<close>, or \<open>None\<close> when it assigns
  nothing. \<open>reported_depth\<close> is \<open>currentDepth\<close>.
\<close>

definition reported_depth :: "string \<Rightarrow> int" where
  "reported_depth line = (case match_depth line of Some ds \<Rightarrow> int (parse_digits ds) | None \<Rightarrow> 0)"

definition parse_info :: "string \<Rightarrow> int \<Rightarrow> string \<Rightarrow> StockfishEval option" where
  "parse_info fenText depth line =
     (if startsWith line ''info depth'' then
        (let currentDepth = reported_depth line in
         if currentDepth \<ge> depth - 2 then
           (let scoreMatch = match_score line; pvMatch = match_pv line in
            case scoreMatch of
              Some (kind, digits) \<Rightarrow>
                (let value0 = parseInt digits;
                     isBlackTurn = (side_to_move fenText = Some ''b'');
                     val = (if isBlackTurn then - value0 else value0)
                 in Some \<lparr> eval_type = kind, eval_value = val,
                           bestMove = (case pvMatch of
                                         Some t \<Rightarrow> trim (hd (split_on CHR '' '' t))
                                       | None \<Rightarrow> []),
                           pv = (case pvMatch of
                                   Some t \<Rightarrow> split_on CHR '' '' t
                                 | None \<Rightarrow> []) \<rparr>)
            | None \<Rightarrow> None)
         else None)
      else None)"

text \<open>
  \<open>line.split(' ')[1].trim()\<close>; \<open>None\<close> when the line has no second field, where
  the source raises a TypeError.
\<close>

definition bestmove_token :: "string \<Rightarrow> string option" where
  "bestmove_token line = (case split_on CHR '' '' line of _ # t # _ \<Rightarrow> Some (trim t) | _ \<Rightarrow> None)"


text \<open>
  The variables one call of \<open>runEvaluation\<close> closes over: the accumulated text
  \<open>output\<close>, the variable \<open>evaluation\<close>, and the promise of the request.
  \<open>resolved\<close> is the value the promise was resolved with (\<open>None\<close> while it is
  pending; a promise keeps its first resolution). \<open>resolve(evaluation)\<close> hands over
  the object itself, so a later assignment to \<open>evaluation.bestMove\<close> changes the
  resolved value too as long as \<open>evaluation\<close> is still that object: \<open>aliased\<close>
  records this. \<open>env\<close> is everything \<open>cleanup()\<close> acts on (timer, listener,
  instance); the handler only passes it to \<open>cleanup\<close>.
\<close>

datatype js_error = TypeError

record 'i handler_state =
  outputText :: string
  cur_evaluation :: "StockfishEval option"
  resolved :: "StockfishEval option"
  aliased :: bool
  env :: 'i

definition fresh_handler :: "'i \<Rightarrow> 'i handler_state" where
  "fresh_handler e =
     \<lparr> outputText = [], cur_evaluation = None, resolved = None, aliased = False, env = e \<rparr>"

text \<open>
  The body of the loop \<open>for (const line of lines)\<close>. The result is \<open>Inl\<close> with the
  state reached when the line raises and \<open>Inr\<close> otherwise.
\<close>

definition info_step :: "string \<Rightarrow> int \<Rightarrow> string \<Rightarrow> 'i handler_state \<Rightarrow> 'i handler_state" where
  "info_step fenText depth line st =
     (case parse_info fenText depth line of
        Some e \<Rightarrow> st\<lparr>cur_evaluation := Some e, aliased := False\<rparr>
      | None \<Rightarrow> st)"

definition process_line ::
  "('i \<Rightarrow> 'i) \<Rightarrow> string \<Rightarrow> int \<Rightarrow> string \<Rightarrow> 'i handler_state
     \<Rightarrow> (js_error \<times> 'i handler_state) + 'i handler_state" where
  "process_line cleanup fenText depth line st =
     (let st1 = info_step fenText depth line st
      in if startsWith line ''bestmove'' then
           (case bestmove_token line of
              None \<Rightarrow> Inl (TypeError, st1)
            | Some m \<Rightarrow>
                (let st2 = st1\<lparr>env := cleanup (env st1)\<rparr>
                 in case cur_evaluation st2 of
                      Some e \<Rightarrow>
                        (let e' = e\<lparr>bestMove := m\<rparr>
                         in Inr (st2\<lparr>cur_evaluation := Some e',
                                     resolved := (if resolved st2 = None \<or> aliased st2
                                                  then Some e' else resolved st2),
                                     aliased := (resolved st2 = None \<or> aliased st2)\<rparr>))
                    | None \<Rightarrow>
                        Inr (st2\<lparr>resolved :=
                                    (if resolved st2 = None
                                     then Some \<lparr> eval_type = Cp, eval_value = 0,
                                                  bestMove = m, pv = [m] \<rparr>
                                     else resolved st2),
                                  aliased := (resolved st2 \<noteq> None \<and> aliased st2)\<rparr>)))
         else Inr st1)"

fun process_lines ::
  "('i \<Rightarrow> 'i) \<Rightarrow> string \<Rightarrow> int \<Rightarrow> string list \<Rightarrow> 'i handler_state
     \<Rightarrow> (js_error \<times> 'i handler_state) + 'i handler_state" where
  "process_lines cleanup fenText depth [] st = Inr st"
| "process_lines cleanup fenText depth (line # rest) st =
     (case process_line cleanup fenText depth line st of
        Inl thrown \<Rightarrow> Inl thrown
      | Inr st' \<Rightarrow> process_lines cleanup fenText depth rest st')"

text \<open>
  \<open>onData\<close>: append the chunk to \<open>output\<close>, split the whole of it at line feeds
  and run the loop over every piece, the piece behind the last line feed included.
\<close>

definition onData ::
  "('i \<Rightarrow> 'i) \<Rightarrow> string \<Rightarrow> int \<Rightarrow> string \<Rightarrow> 'i handler_state
     \<Rightarrow> (js_error \<times> 'i handler_state) + 'i handler_state" where
  "onData cleanup fenText depth chunk st =
     (let st1 = st\<lparr>outputText := outputText st @ chunk\<rparr>
      in process_lines cleanup fenText depth (split_on CHR 0x0A (outputText st1)) st1)"

definition state_after :: "(js_error \<times> 'i handler_state) + 'i handler_state \<Rightarrow> 'i handler_state" where
  "state_after r = (case r of Inl (e, st) \<Rightarrow> st | Inr st \<Rightarrow> st)"


text \<open>
  Auxiliary notions for the statements: the last line of a list that assigns an
  evaluation, and the value of \<open>evaluation\<close> behind a list of lines that holds no
  bestmove line.
\<close>

definition last_scored :: "string \<Rightarrow> int \<Rightarrow> string list \<Rightarrow> string option" where
  "last_scored fenText depth ls =
     (let scored = filter (\<lambda>x. parse_info fenText depth x \<noteq> None) ls
      in if scored = [] then None else Some (last scored))"


definition scored_before ::
  "string \<Rightarrow> int \<Rightarrow> string list \<Rightarrow> StockfishEval option \<Rightarrow> StockfishEval option" where
  "scored_before fenText depth pre ev0 =
     (case last_scored fenText depth pre of
        None \<Rightarrow> ev0
      | Some q \<Rightarrow> parse_info fenText depth q)"


text \<open>
  The words of the specification for the lines that count: a search-progress line that
  reports a depth of at least the target depth less 2 and carries a score token; and the
  complete lines of a text, which are its pieces between line feeds without the
  unterminated piece behind the last line feed.
\<close>

definition qualifying :: "int \<Rightarrow> string \<Rightarrow> bool" where
  "qualifying depth line =
     (startsWith line ''info depth'' \<and> depth - 2 \<le> reported_depth line \<and> match_score line \<noteq> None)"

definition complete_lines :: "string \<Rightarrow> string list" where
  "complete_lines text = butlast (split_on CHR 0x0A text)"

text \<open>
  The chunks of the engine's output reach the handler one data event after the other, as
  long as its listener is registered, which it is until the request is resolved; an
  exception ends the run.
\<close>

fun feed ::
  "('i \<Rightarrow> 'i) \<Rightarrow> string \<Rightarrow> int \<Rightarrow> string list \<Rightarrow> 'i handler_state
     \<Rightarrow> (js_error \<times> 'i handler_state) + 'i handler_state" where
  "feed cleanup fenText depth [] st = Inr st"
| "feed cleanup fenText depth (chunk # chunks) st =
     (if resolved st \<noteq> None then Inr st
      else (case onData cleanup fenText depth chunk st of
              Inl thrown \<Rightarrow> Inl thrown
            | Inr st' \<Rightarrow> feed cleanup fenText depth chunks st'))"


text \<open>
  What holds of the handler of a pending request between two events: no piece of the
  accumulated output starts with \<open>bestmove\<close>, and an evaluation is recorded only if
  a piece of the accumulated output qualifies.
\<close>

definition pending_ok :: "int \<Rightarrow> 'i handler_state \<Rightarrow> bool" where
  "pending_ok depth st =
     (resolved st = None
      \<and> (\<forall>x\<in>set (split_on CHR 0x0A (outputText st)). \<not> startsWith x ''bestmove'')
      \<and> (cur_evaluation st \<noteq> None
           \<longrightarrow> (\<exists>x\<in>set (split_on CHR 0x0A (outputText st)). qualifying depth x)))"


text \<open>
  Sample input: the state behind the chunk \<open>info depth 10 score cp 2\<close>, which cuts a
  line of the engine, for a position with Black to move, and the rest of the output.
\<close>

abbreviation cut_info_state :: "nat handler_state" where
  "cut_info_state \<equiv>
     \<lparr> outputText = ''info depth 10 score cp 2'',
       cur_evaluation = Some \<lparr> eval_type = Cp, eval_value = - 2, bestMove = [], pv = [] \<rparr>,
       resolved = None, aliased = False, env = 0 \<rparr>"

abbreviation cut_info_rest :: string where
  "cut_info_rest \<equiv>
     ''5 pv e7e5'' @ [CHR 0x0A] @ ''info depth 3 score cp 900 pv a7a6'' @ [CHR 0x0A]
       @ ''bestmove e7e5'' @ [CHR 0x0A]"


section \<open>Engine pool (stockfish.ts, \<open>StockfishPool\<close>)\<close>

text \<open>
  An evaluation request: the FEN, the depth and its completion handle (the
  \<open>resolve\<close>/\<open>reject\<close> pair of the promise \<open>evaluate\<close> creates), which
  \<open>req_id\<close> identifies; every call of \<open>evaluate\<close> has a handle of its own.
\<close>

record request =
  req_id :: nat
  req_fen :: string
  req_depth :: int

text \<open>
  \<open>StockfishInstance\<close>: the flag \<open>busy\<close> and the \<open>queue\<close> of the source.
  \<open>running\<close> stands for the child process's side: the calls of \<open>runEvaluation\<close>
  whose \<open>cleanup\<close> has not run, in the order they registered their \<open>data\<close>
  listener on the process's stdout, each with the variables of its handler; these are the
  requests in flight. \<open>dispatched\<close> lists the requests whose \<open>position\<close> and
  \<open>go\<close> commands were written to stdin, in order.
\<close>

record StockfishInstance =
  busy :: bool
  queue :: "request list"
  running :: "(request \<times> unit handler_state) list"
  dispatched :: "request list"

definition idle_instance :: StockfishInstance where
  "idle_instance = \<lparr> busy = False, queue = [], running = [], dispatched = [] \<rparr>"

text \<open>
  \<open>runEvaluation\<close>: set \<open>busy\<close>, register the listener and the timer, write the
  commands. \<open>cleanup_instance r\<close> is the closure \<open>cleanup\<close> of the call of
  \<open>runEvaluation\<close> for request \<open>r\<close>: clear the timer, remove the listener, clear \<open>busy\<close>, and
  run the request at the head of the queue, if any.
\<close>

definition runEvaluation :: "StockfishInstance \<Rightarrow> request \<Rightarrow> StockfishInstance" where
  "runEvaluation inst r =
     inst\<lparr> busy := True,
           running := running inst @ [(r, fresh_handler ())],
           dispatched := dispatched inst @ [r] \<rparr>"

definition cleanup_instance :: "request \<Rightarrow> StockfishInstance \<Rightarrow> StockfishInstance" where
  "cleanup_instance r inst =
     (let inst1 = inst\<lparr> running := filter (\<lambda>(r', h). req_id r' \<noteq> req_id r) (running inst),
                          busy := False \<rparr>
      in case queue inst1 of
           [] \<Rightarrow> inst1
         | next # rest \<Rightarrow> runEvaluation (inst1\<lparr>queue := rest\<rparr>) next)"

text \<open>
  \<open>evaluate\<close> on an initialized pool (behind the \<open>initialized\<close> guard):
  \<open>instances.find(i => !i.busy)\<close>, else \<open>instances[0]\<close>; then queue or run by the
  instance's \<open>busy\<close> flag. With no instance at all, reading \<open>instance.busy\<close>
  raises a TypeError, which rejects the promise.
\<close>

fun findIndex :: "('a \<Rightarrow> bool) \<Rightarrow> 'a list \<Rightarrow> nat option" where
  "findIndex P [] = None"
| "findIndex P (x # xs) = (if P x then Some 0 else map_option Suc (findIndex P xs))"

definition evaluate :: "StockfishInstance list \<Rightarrow> request \<Rightarrow> js_error + StockfishInstance list" where
  "evaluate instances r =
     (let target = (case findIndex (\<lambda>i. \<not> busy i) instances of
                      Some k \<Rightarrow> Some k
                    | None \<Rightarrow> (if instances = [] then None else Some 0))
      in case target of
           None \<Rightarrow> Inl TypeError
         | Some k \<Rightarrow>
             (if busy (instances ! k)
              then Inr (instances[k := (instances ! k)\<lparr>queue := queue (instances ! k) @ [r]\<rparr>])
              else Inr (instances[k := runEvaluation (instances ! k) r])))"

text \<open>
  A \<open>data\<close> event of an instance's stdout: every listener registered when the event
  is emitted is called with the chunk, in order, also one that an earlier listener removed
  meanwhile; an exception ends the emission. The handler of request \<open>r\<close> runs with
  \<open>cleanup_instance r\<close> on the instance; its variables are written back to its entry if it is
  still registered.
\<close>

definition with_env :: "'a handler_state \<Rightarrow> 'i \<Rightarrow> 'i handler_state" where
  "with_env h e =
     \<lparr> outputText = outputText h, cur_evaluation = cur_evaluation h, resolved = resolved h,
       aliased = aliased h, env = e \<rparr>"

definition store_closure ::
  "request \<Rightarrow> 'i handler_state \<Rightarrow> (request \<times> unit handler_state) list
     \<Rightarrow> (request \<times> unit handler_state) list" where
  "store_closure r h ls =
     map (\<lambda>(r', h'). if req_id r' = req_id r then (r', with_env h ()) else (r', h')) ls"

definition call_listener ::
  "string \<Rightarrow> request \<times> unit handler_state \<Rightarrow> StockfishInstance
     \<Rightarrow> js_error \<times> StockfishInstance + StockfishInstance" where
  "call_listener chunk l inst =
     (case l of (r, h) \<Rightarrow>
        (case onData (cleanup_instance r) (req_fen r) (req_depth r) chunk (with_env h inst) of
           Inl (e, h') \<Rightarrow> Inl (e, (env h')\<lparr>running := store_closure r h' (running (env h'))\<rparr>)
         | Inr h' \<Rightarrow> Inr ((env h')\<lparr>running := store_closure r h' (running (env h'))\<rparr>)))"

fun call_listeners ::
  "string \<Rightarrow> (request \<times> unit handler_state) list \<Rightarrow> StockfishInstance
     \<Rightarrow> js_error \<times> StockfishInstance + StockfishInstance" where
  "call_listeners chunk [] inst = Inr inst"
| "call_listeners chunk (l # ls) inst =
     (case call_listener chunk l inst of
        Inl thrown \<Rightarrow> Inl thrown
      | Inr inst' \<Rightarrow> call_listeners chunk ls inst')"

definition emit_data :: "string \<Rightarrow> StockfishInstance \<Rightarrow> js_error \<times> StockfishInstance + StockfishInstance" where
  "emit_data chunk inst = call_listeners chunk (running inst) inst"

text \<open>The timer of a request fires unless \<open>cleanup\<close> cleared it: \<open>cleanup(); reject(...)\<close>.\<close>

definition fire_timeout :: "request \<Rightarrow> StockfishInstance \<Rightarrow> StockfishInstance" where
  "fire_timeout r inst =
     (if req_id r \<in> set (map (req_id \<circ> fst) (running inst)) then cleanup_instance r inst else inst)"

text \<open>Sample requests, told apart by their handle.\<close>

abbreviation rq :: "nat \<Rightarrow> request" where
  "rq n \<equiv> \<lparr> req_id = n, req_fen = ''8/8/8/8/8/8/8/K1k5 w - - 0 1'', req_depth = 10 \<rparr>"


text \<open>
  What happens to a pool: a call of \<open>evaluate\<close>, a chunk on the stdout of instance
  \<open>i\<close>, the timer of a request of instance \<open>i\<close>.
\<close>

datatype event = Evaluate request | Data nat string | Timeout nat request

definition pool_step :: "StockfishInstance list \<Rightarrow> event \<Rightarrow> js_error + StockfishInstance list" where
  "pool_step instances ev =
     (case ev of
        Evaluate r \<Rightarrow> evaluate instances r
      | Data i chunk \<Rightarrow>
          (if i < length instances
           then (case emit_data chunk (instances ! i) of
                   Inl (e, inst') \<Rightarrow> Inl e
                 | Inr inst' \<Rightarrow> Inr (instances[i := inst']))
           else Inr instances)
      | Timeout i r \<Rightarrow>
          (if i < length instances
           then Inr (instances[i := fire_timeout r (instances ! i)])
           else Inr instances))"

fun run_events :: "StockfishInstance list \<Rightarrow> event list \<Rightarrow> js_error + StockfishInstance list" where
  "run_events instances [] = Inr instances"
| "run_events instances (ev # evs) =
     (case pool_step instances ev of
        Inl e \<Rightarrow> Inl e
      | Inr instances' \<Rightarrow> run_events instances' evs)"

abbreviation busy_with :: "request \<Rightarrow> request list \<Rightarrow> StockfishInstance" where
  "busy_with r q \<equiv>
     \<lparr> busy = True, queue = q, running = [(r, fresh_handler ())], dispatched = [r] \<rparr>"


text \<open>
  Auxiliary notions for the statements. \<open>instance_ok\<close>: at most one request is in
  flight, the instance is busy exactly when one is, and requests wait only on a busy
  instance. \<open>events_ok\<close>: along a sequence of events, no chunk makes a handler read
  more than one bestmove line in its accumulated output.
\<close>

definition instance_ok :: "StockfishInstance \<Rightarrow> bool" where
  "instance_ok inst =
     ((busy inst \<longleftrightarrow> running inst \<noteq> []) \<and> length (running inst) \<le> 1
      \<and> (queue inst \<noteq> [] \<longrightarrow> busy inst))"

definition bestmove_lines :: "string \<Rightarrow> string list" where
  "bestmove_lines text = filter (\<lambda>l. startsWith l ''bestmove'') (split_on CHR 0x0A text)"

definition single_bestmove :: "StockfishInstance \<Rightarrow> string \<Rightarrow> bool" where
  "single_bestmove inst chunk =
     (\<forall>(r, h) \<in> set (running inst). length (bestmove_lines (outputText h @ chunk)) \<le> 1)"

fun events_ok :: "StockfishInstance list \<Rightarrow> event list \<Rightarrow> bool" where
  "events_ok instances [] = True"
| "events_ok instances (ev # evs) =
     ((case ev of
         Data i chunk \<Rightarrow> i < length instances \<longrightarrow> single_bestmove (instances ! i) chunk
       | _ \<Rightarrow> True)
      \<and> (case pool_step instances ev of
            Inl e \<Rightarrow> True
          | Inr instances' \<Rightarrow> events_ok instances' evs))"


section \<open>Game analyzer (stockfish.ts, \<open>analyzeGame\<close>)\<close>

text \<open>
  chess.js is a library outside the repository. \<open>analyzeGame\<close> takes what it uses
  of it as a parameter: \<open>loadPgn\<close> followed by \<open>history({verbose: true})\<close>, which
  gives the moves or raises; the position after \<open>reset()\<close>; \<open>fen()\<close>; and
  \<open>move\<close>, which gives the next position or raises. \<open>evaluatePosition\<close> is a
  parameter too: the outcome of the \<open>i\<close>-th awaited evaluation, a rejection or an
  evaluation. The first component of the result lists the evaluation requests issued.
\<close>

datatype color = White | Black

record verbose_move =
  san :: string
  from_square :: string
  to_square :: string
  promotion :: "string option"

record ('c, 'e) chess_lib =
  loadPgn :: "string \<Rightarrow> 'e + verbose_move list"
  reset :: 'c
  fenOf :: "'c \<Rightarrow> string"
  makeMove :: "'c \<Rightarrow> verbose_move \<Rightarrow> 'e + 'c"

text \<open>
  The loop \<open>for (let i = 0; i < moves.length; i++)\<close>; \<open>chess\<close> is the position
  before move \<open>i\<close>, \<open>results\<close> the array so far.
\<close>

fun analyze_loop ::
  "('c, 'e) chess_lib \<Rightarrow> (nat \<Rightarrow> string \<Rightarrow> int \<Rightarrow> 'e + StockfishEval) \<Rightarrow> color \<Rightarrow> int
     \<Rightarrow> nat \<Rightarrow> 'c \<Rightarrow> verbose_move list \<Rightarrow> ply_result list \<Rightarrow> (string \<times> int) list
     \<Rightarrow> (string \<times> int) list \<times> ('e + ply_result list)" where
  "analyze_loop lib evaluatePosition userColor depth i chess [] results issued
     = (issued, Inr results)"
| "analyze_loop lib evaluatePosition userColor depth i chess (m # ms) results issued =
     (let position = fenOf lib chess;
          isWhiteMove = (i mod 2 = 0);
          userMove = ((userColor = White \<and> isWhiteMove) \<or> (userColor = Black \<and> \<not> isWhiteMove));
          issued' = issued @ [(position, depth)]
      in case evaluatePosition i position depth of
           Inl e \<Rightarrow> (issued', Inl e)
         | Inr ev \<Rightarrow>
             (let results' = results @
                    [\<lparr> ply = i + 1, moveNumber = i div 2 + 1, fen = position,
                       movePlayed = san m,
                       movePlayedUci = from_square m @ to_square m
                          @ (case promotion m of Some p \<Rightarrow> p | None \<Rightarrow> []),
                       evaluation = ev, isUserMove = userMove \<rparr>]
              in case makeMove lib chess m of
                   Inl e \<Rightarrow> (issued', Inl e)
                 | Inr chess' \<Rightarrow>
                     analyze_loop lib evaluatePosition userColor depth (i + 1) chess' ms
                       results' issued'))"

definition analyzeGame ::
  "('c, 'e) chess_lib \<Rightarrow> (nat \<Rightarrow> string \<Rightarrow> int \<Rightarrow> 'e + StockfishEval) \<Rightarrow> string \<Rightarrow> color \<Rightarrow> int
     \<Rightarrow> (string \<times> int) list \<times> ('e + ply_result list)" where
  "analyzeGame lib evaluatePosition pgn userColor depth =
     (case loadPgn lib pgn of
        Inl e \<Rightarrow> ([], Inl e)
      | Inr moves \<Rightarrow> analyze_loop lib evaluatePosition userColor depth 0 (reset lib) moves [] [])"


text \<open>Sample parameters: a parser that accepts one game text only.\<close>

abbreviation sample_lib :: "(nat, string) chess_lib" where
  "sample_lib \<equiv>
     \<lparr> loadPgn = (\<lambda>pgn. if pgn = ''1. e4''
                        then Inr [\<lparr> san = ''e4'', from_square = ''e2'', to_square = ''e4'',
                                    promotion = None \<rparr>]
                        else Inl ''Invalid move in PGN''),
       reset = 0,
       fenOf = (\<lambda>n. if n = 0 then ''start'' else ''after e4''),
       makeMove = (\<lambda>n m. Inr (Suc n)) \<rparr>"


section \<open>Properties of the classification\<close>

lemma classifyMove_label_conditions:
  "(classifyMove c b eb ea w = Blunder) = (200 \<le> c)"
  "(classifyMove c b eb ea w = Mistake) = (100 \<le> c \<and> c < 200)"
  "(classifyMove c b eb ea w = Inaccuracy) = (50 \<le> c \<and> c < 100)"
  "(classifyMove c b eb ea w = Brilliant) =
     (c < 50 \<and> b \<and> spec_improvement eb ea w > 80 \<and> \<bar>eb\<bar> < 200)"
  "(classifyMove c b eb ea w = Great) =
     (c < 50 \<and> b \<and> spec_improvement eb ea w > 40
        \<and> \<not> (spec_improvement eb ea w > 80 \<and> \<bar>eb\<bar> < 200))"
  "(classifyMove c b eb ea w = Best) = (c < 50 \<and> b \<and> \<not> spec_improvement eb ea w > 40)"
  "(classifyMove c b eb ea w = Excellent) = (c < 15 \<and> \<not> b)"
  "(classifyMove c b eb ea w = Good) = (15 \<le> c \<and> c < 50 \<and> \<not> b)"
  by (auto simp: classifyMove_def spec_improvement_def BLUNDER_THRESHOLD_def
      MISTAKE_THRESHOLD_def INACCURACY_THRESHOLD_def Let_def)

text \<open>
  C1. For every input, \<open>classifyMove\<close> returns the label of the specification's
  priority table (blunder from 200, mistake from 100, inaccuracy from 50, then for the
  engine's best move brilliant, great or best by the improvement of the moving side, and
  otherwise excellent below 15 and good from 15), and the three examples of the
  specification evaluate to blunder, mistake and brilliant. The statement holds for
  every integer loss, so in particular for every loss that is not negative.
\<close>

theorem classifyMove_matches_table:
  "classifyMove cpLoss isBestMove evalBefore evalAfter isWhite
     = spec_classify cpLoss isBestMove evalBefore evalAfter isWhite
   \<and> classifyMove 250 False eb1 ea1 w1 = Blunder
   \<and> classifyMove 120 False eb2 ea2 w2 = Mistake
   \<and> classifyMove 10 True 50 140 True = Brilliant"
  by (simp add: classifyMove_def spec_classify_def spec_improvement_def
      BLUNDER_THRESHOLD_def MISTAKE_THRESHOLD_def INACCURACY_THRESHOLD_def Let_def)

section \<open>Properties of the move records\<close>

lemma analyse_moves_length: "length (analyse_moves gid rs) = length rs"
  by (induction rs) auto

lemma analyse_moves_nth:
  "i < length rs \<Longrightarrow>
   analyse_moves gid rs ! i
     = move_record gid (rs ! i) (if Suc i < length rs then Some (rs ! Suc i) else None)"
proof (induction rs arbitrary: i)
  case Nil
  then show ?case by simp
next
  case (Cons r rs)
  show ?case
  proof (cases i)
    case 0
    then show ?thesis by (cases rs) simp_all
  next
    case (Suc j)
    with Cons show ?thesis by simp
  qed
qed

lemma analyse_moves_last:
  "rs \<noteq> [] \<Longrightarrow> last (analyse_moves gid rs) = move_record gid (last rs) None"
proof (induction rs)
  case Nil
  then show ?case by simp
next
  case (Cons r rs)
  then show ?case by (cases rs) simp_all
qed

lemma normalize_as_centipawns:
  "normalize_eval (evaluation (as_centipawns r)) = normalize_eval (evaluation r)"
  by (simp add: as_centipawns_def normalize_eval_def)

lemma move_record_as_centipawns:
  "move_record gid (as_centipawns c) (map_option as_centipawns n) = move_record gid c n"
  by (cases n)
    (simp_all add: move_record_def normalize_as_centipawns Let_def,
      simp_all add: as_centipawns_def)

lemma analyse_moves_as_centipawns:
  "analyse_moves gid (map as_centipawns rs) = analyse_moves gid rs"
proof (induction rs)
  case Nil
  then show ?case by simp
next
  case (Cons r rs)
  have "(case map as_centipawns rs of [] \<Rightarrow> None | n # _ \<Rightarrow> Some n)
          = map_option as_centipawns (case rs of [] \<Rightarrow> None | n # _ \<Rightarrow> Some n)"
    by (cases rs) simp_all
  with Cons show ?case by (simp add: move_record_as_centipawns)
qed

text \<open>
  C2. For every list of results and every index \<open>i\<close> into it, the record stored for
  ply \<open>i\<close> has as \<open>eval_before\<close> the normalized evaluation of ply \<open>i\<close>, as
  \<open>eval_after\<close> the normalized evaluation of ply \<open>i + 1\<close> when there is one,
  and as \<open>cp_loss\<close> the value \<open>max 0 (eval_before - eval_after)\<close> when the ply number
  is odd (a White move) and \<open>max 0 (eval_after - eval_before)\<close> otherwise; the loss is
  never negative.
\<close>

theorem cp_loss_formula:
  assumes "i < length rs"
  shows "eval_before (analyse_moves gid rs ! i) = normalize_eval (evaluation (rs ! i))
    \<and> (Suc i < length rs \<longrightarrow>
          eval_after (analyse_moves gid rs ! i) = normalize_eval (evaluation (rs ! Suc i)))
    \<and> cp_loss (analyse_moves gid rs ! i)
        = (if odd (ply (rs ! i))
           then max 0 (eval_before (analyse_moves gid rs ! i)
                        - eval_after (analyse_moves gid rs ! i))
           else max 0 (eval_after (analyse_moves gid rs ! i)
                        - eval_before (analyse_moves gid rs ! i)))
    \<and> 0 \<le> cp_loss (analyse_moves gid rs ! i)"
  using assms by (simp add: analyse_moves_nth move_record_def Let_def odd_iff_mod_2_eq_one)

theorem cp_loss_formula_witness:
  "0 < length [sample_ply1, sample_ply2]
   \<and> Suc 0 < length [sample_ply1, sample_ply2]
   \<and> eval_before (analyse_moves ''g'' [sample_ply1, sample_ply2] ! 0) = 30
   \<and> eval_after (analyse_moves ''g'' [sample_ply1, sample_ply2] ! 0) = - 20
   \<and> cp_loss (analyse_moves ''g'' [sample_ply1, sample_ply2] ! 0) = 50"
  using cp_loss_formula [of 0 "[sample_ply1, sample_ply2]" "''g''"]
  by (simp add: normalize_eval_def)

text \<open>
  C3. The value of an evaluation that enters the loss and the classification is
  \<open>m * 10000\<close> for a mate evaluation with signed mate count \<open>m\<close> and the value
  itself for a centipawn evaluation: these are \<open>eval_before\<close> and \<open>eval_after\<close> of
  every record. Nothing behind the conversion reads the kind of an evaluation: replacing
  every evaluation by the centipawn evaluation of its normalized value leaves every record
  unchanged.
\<close>

theorem mate_conversion:
  "normalize_eval e = (case eval_type e of Mate \<Rightarrow> eval_value e * 10000 | Cp \<Rightarrow> eval_value e)
   \<and> eval_before (move_record gid current next) = normalize_eval (evaluation current)
   \<and> eval_after (move_record gid current (Some n)) = normalize_eval (evaluation n)
   \<and> analyse_moves gid (map as_centipawns rs) = analyse_moves gid rs"
  by (cases "eval_type e")
    (simp_all add: normalize_eval_def move_record_def Let_def analyse_moves_as_centipawns)

text \<open>
  C10. The record of the final ply of a game has \<open>eval_after\<close> equal to
  \<open>eval_before\<close>, loss 0, and the classification best when the played move equals
  the engine's best move (compared in lower case, trimmed) and excellent otherwise; so it
  is never blunder, mistake, inaccuracy, good, great or brilliant.
\<close>

theorem final_ply_classification:
  assumes "rs \<noteq> []"
  shows "eval_after (last (analyse_moves gid rs)) = eval_before (last (analyse_moves gid rs))
    \<and> cp_loss (last (analyse_moves gid rs)) = 0
    \<and> classification (last (analyse_moves gid rs))
        = (if trim (toLowerCase (movePlayedUci (last rs)))
                = trim (toLowerCase (bestMove (evaluation (last rs))))
           then Best else Excellent)
    \<and> classification (last (analyse_moves gid rs))
        \<notin> {Blunder, Mistake, Inaccuracy, Good, Great, Brilliant}"
  using assms
  by (simp add: analyse_moves_last move_record_def Let_def classifyMove_def
      BLUNDER_THRESHOLD_def MISTAKE_THRESHOLD_def INACCURACY_THRESHOLD_def)

theorem final_ply_classification_witness:
  "[sample_ply1, sample_ply2] \<noteq> []
   \<and> eval_after (last (analyse_moves ''g'' [sample_ply1, sample_ply2])) = - 20
   \<and> eval_before (last (analyse_moves ''g'' [sample_ply1, sample_ply2])) = - 20
   \<and> cp_loss (last (analyse_moves ''g'' [sample_ply1, sample_ply2])) = 0
   \<and> classification (last (analyse_moves ''g'' [sample_ply1, sample_ply2])) = Best"
proof -
  have same: "trim (toLowerCase ''e7e5'') = trim (toLowerCase '' E7E5'')"
    by code_simp
  have before: "eval_before (last (analyse_moves ''g'' [sample_ply1, sample_ply2])) = - 20"
    by (simp add: move_record_def normalize_eval_def Let_def)
  show ?thesis
    using final_ply_classification [of "[sample_ply1, sample_ply2]" "''g''"] same before
    by simp
qed

section \<open>Properties of the position evaluator\<close>

lemma split_on_nonempty: "split_on sep s \<noteq> []"
  by (induction s) (auto split: list.splits)

lemma split_on_no_sep: "sep \<notin> set s \<Longrightarrow> split_on sep s = [s]"
  by (induction s) auto

lemma state_after_simps [simp]:
  "state_after (Inr st) = st" "state_after (Inl (e, st)) = st"
  by (simp_all add: state_after_def)

lemma info_step_fields [simp]:
  "resolved (info_step f d l st) = resolved st"
  "env (info_step f d l st) = env st"
  "outputText (info_step f d l st) = outputText st"
  by (simp_all add: info_step_def split: option.splits)

lemma info_step_evaluation:
  "cur_evaluation (info_step f d l st)
     = (case parse_info f d l of Some e \<Rightarrow> Some e | None \<Rightarrow> cur_evaluation st)"
  by (simp add: info_step_def split: option.splits)

lemma process_line_other:
  "\<not> startsWith l ''bestmove'' \<Longrightarrow> process_line c f d l st = Inr (info_step f d l st)"
  by (simp add: process_line_def)

lemma process_lines_append:
  "process_lines c f d (xs @ ys) st
     = (case process_lines c f d xs st of
          Inl t \<Rightarrow> Inl t
        | Inr st' \<Rightarrow> process_lines c f d ys st')"
  by (induction xs arbitrary: st) (auto split: sum.splits)

lemma process_lines_no_bestmove:
  "\<forall>x\<in>set ls. \<not> startsWith x ''bestmove'' \<Longrightarrow>
   process_lines c f d ls st = Inr (foldl (\<lambda>s l. info_step f d l s) st ls)"
  by (induction ls arbitrary: st) (auto simp: process_line_other)

lemma foldl_info_step_fields [simp]:
  "resolved (foldl (\<lambda>s l. info_step f d l s) st ls) = resolved st"
  "env (foldl (\<lambda>s l. info_step f d l s) st ls) = env st"
  "outputText (foldl (\<lambda>s l. info_step f d l s) st ls) = outputText st"
  by (induction ls arbitrary: st) simp_all

lemma foldl_info_step_evaluation:
  "cur_evaluation (foldl (\<lambda>s l. info_step f d l s) st ls)
     = (case last_scored f d ls of
          None \<Rightarrow> cur_evaluation st
        | Some q \<Rightarrow> parse_info f d q)"
proof (induction ls rule: rev_induct)
  case Nil
  then show ?case by (simp add: last_scored_def)
next
  case (snoc x xs)
  show ?case
  proof (cases "parse_info f d x")
    case None
    then have "last_scored f d (xs @ [x]) = last_scored f d xs"
      by (simp add: last_scored_def)
    with snoc None show ?thesis by (simp add: info_step_evaluation)
  next
    case (Some e)
    then have "last_scored f d (xs @ [x]) = Some x"
      by (simp add: last_scored_def)
    with Some show ?thesis by (simp add: info_step_evaluation)
  qed
qed

lemma process_lines_invariant:
  assumes step: "\<And>l s. P s \<Longrightarrow> P (state_after (process_line c f d l s))"
    and init: "P st"
  shows "P (state_after (process_lines c f d ls st))"
  using init
proof (induction ls arbitrary: st)
  case Nil
  then show ?case by simp
next
  case (Cons l ls)
  from step [OF Cons.prems, of l] show ?case
    by (cases "process_line c f d l st") (auto intro: Cons.IH)
qed

lemma settled_fresh_stays:
  assumes "resolved st = Some v" "\<not> aliased st"
  shows "resolved (state_after (process_lines c f d ls st)) = Some v"
proof -
  have "resolved (state_after (process_lines c f d ls st)) = Some v
        \<and> \<not> aliased (state_after (process_lines c f d ls st))"
    by (rule process_lines_invariant [where P = "\<lambda>s. resolved s = Some v \<and> \<not> aliased s"])
      (auto simp: assms process_line_def info_step_def Let_def split: option.splits)
  then show ?thesis by simp
qed

lemma settled_pv_stays:
  assumes "resolved st = Some v" "aliased st \<longrightarrow> cur_evaluation st = resolved st"
  shows "\<exists>v'. resolved (state_after (process_lines c f d ls st)) = Some v' \<and> pv v' = pv v"
proof -
  let ?P = "\<lambda>s. (\<exists>v'. resolved s = Some v' \<and> pv v' = pv v)
                \<and> (aliased s \<longrightarrow> cur_evaluation s = resolved s)"
  have "?P (state_after (process_lines c f d ls st))"
    by (rule process_lines_invariant [where P = ?P])
      (auto simp: assms process_line_def info_step_def Let_def split: option.splits)
  then show ?thesis by simp
qed

lemma bestmove_not_info: "startsWith l ''bestmove'' \<Longrightarrow> parse_info f d l = None"
  by (cases l) (simp_all add: parse_info_def)

lemma bestmove_line_step:
  assumes "resolved s1 = None" "startsWith l ''bestmove''" "bestmove_token l = Some m"
  shows "\<exists>s. process_line c f d l s1 = Inr s
           \<and> resolved s =
               Some (case cur_evaluation s1 of
                       None \<Rightarrow> \<lparr> eval_type = Cp, eval_value = 0, bestMove = m, pv = [m] \<rparr>
                     | Some e \<Rightarrow> e\<lparr>bestMove := m\<rparr>)
           \<and> (aliased s \<longrightarrow> cur_evaluation s = resolved s)
           \<and> (aliased s = (cur_evaluation s1 \<noteq> None))"
proof -
  have same: "info_step f d l s1 = s1"
    using assms(2) by (simp add: info_step_def bestmove_not_info)
  show ?thesis
    using assms by (cases "cur_evaluation s1") (simp_all add: process_line_def same Let_def)
qed

lemma first_bestmove:
  assumes pending: "resolved st = None"
    and quiet: "\<forall>x\<in>set pre. \<not> startsWith x ''bestmove''"
    and best: "startsWith l ''bestmove''"
    and tok: "bestmove_token l = Some m"
  shows "\<exists>s. process_lines c f d (pre @ [l]) st = Inr s
           \<and> resolved s =
               Some (case scored_before f d pre (cur_evaluation st) of
                       None \<Rightarrow> \<lparr> eval_type = Cp, eval_value = 0, bestMove = m, pv = [m] \<rparr>
                     | Some e \<Rightarrow> e\<lparr>bestMove := m\<rparr>)
           \<and> (aliased s \<longrightarrow> cur_evaluation s = resolved s)
           \<and> (aliased s = (scored_before f d pre (cur_evaluation st) \<noteq> None))"
proof -
  let ?s1 = "foldl (\<lambda>s x. info_step f d x s) st pre"
  have pre: "process_lines c f d pre st = Inr ?s1"
    using quiet by (rule process_lines_no_bestmove)
  have ev: "cur_evaluation ?s1 = scored_before f d pre (cur_evaluation st)"
    unfolding scored_before_def by (rule foldl_info_step_evaluation)
  have res: "resolved ?s1 = None"
    using pending by simp
  from bestmove_line_step [OF res best tok, of c f d]
  show ?thesis
    unfolding ev by (auto simp: process_lines_append pre)
qed

lemma onData_first_bestmove:
  assumes pending: "resolved st = None"
    and lines: "split_on CHR 0x0A (outputText st @ chunk) = pre @ l # post"
    and quiet: "\<forall>x\<in>set pre. \<not> startsWith x ''bestmove''"
    and best: "startsWith l ''bestmove''"
    and tok: "bestmove_token l = Some m"
  shows "\<exists>s. onData c f d chunk st = process_lines c f d post s
           \<and> resolved s =
               Some (case scored_before f d pre (cur_evaluation st) of
                       None \<Rightarrow> \<lparr> eval_type = Cp, eval_value = 0, bestMove = m, pv = [m] \<rparr>
                     | Some e \<Rightarrow> e\<lparr>bestMove := m\<rparr>)
           \<and> (aliased s \<longrightarrow> cur_evaluation s = resolved s)
           \<and> (aliased s = (scored_before f d pre (cur_evaluation st) \<noteq> None))"
proof -
  let ?st1 = "st\<lparr>outputText := outputText st @ chunk\<rparr>"
  have "resolved ?st1 = None" using pending by simp
  from first_bestmove [OF this quiet best tok, of c f d]
  obtain s where s: "process_lines c f d (pre @ [l]) ?st1 = Inr s"
    "resolved s =
       Some (case scored_before f d pre (cur_evaluation st) of
               None \<Rightarrow> \<lparr> eval_type = Cp, eval_value = 0, bestMove = m, pv = [m] \<rparr>
             | Some e \<Rightarrow> e\<lparr>bestMove := m\<rparr>)"
    "aliased s \<longrightarrow> cur_evaluation s = resolved s"
    "aliased s = (scored_before f d pre (cur_evaluation st) \<noteq> None)"
    by auto
  have "onData c f d chunk st = process_lines c f d ((pre @ [l]) @ post) ?st1"
    by (simp add: onData_def lines)
  also have "\<dots> = process_lines c f d post s"
    using process_lines_append [of c f d "pre @ [l]" post ?st1] by (simp add: s(1))
  finally show ?thesis using s by blast
qed

text \<open>
  A data event whose lines hold neither a bestmove line nor a qualifying score line only
  extends the accumulated output: the request stays pending with no evaluation recorded.
\<close>

lemma foldl_info_step_quiet:
  "\<forall>x\<in>set ls. parse_info f d x = None \<Longrightarrow> foldl (\<lambda>s l. info_step f d l s) st ls = st"
  by (induction ls arbitrary: st) (simp_all add: info_step_def)

lemma onData_quiet:
  assumes "\<forall>x\<in>set (split_on CHR 0x0A (outputText st @ chunk)).
             \<not> startsWith x ''bestmove'' \<and> parse_info f d x = None"
  shows "onData c f d chunk st = Inr (st\<lparr>outputText := outputText st @ chunk\<rparr>)"
proof -
  from assms have nb: "\<forall>x\<in>set (split_on CHR 0x0A (outputText st @ chunk)). \<not> startsWith x ''bestmove''"
    and np: "\<forall>x\<in>set (split_on CHR 0x0A (outputText st @ chunk)). parse_info f d x = None"
    by simp_all
  show ?thesis
    by (simp add: onData_def process_lines_no_bestmove [OF nb] foldl_info_step_quiet [OF np])
qed


text \<open>
  The neutral evaluation. When the handler meets its first bestmove piece, with field
  \<open>m\<close>, and neither an earlier piece qualifies nor an evaluation is recorded, the
  request is resolved with \<open>{type: 'cp', value: 0, bestMove: m, pv: [m]}\<close>. For a
  bestmove line that reaches the handler whole, \<open>m\<close> is the move token of the line.
\<close>

lemma fallback_evaluation:
  assumes "cur_evaluation st = None" and "resolved st = None"
    and "split_on CHR 0x0A (outputText st @ chunk) = pre @ l # post"
    and "\<forall>x\<in>set pre. \<not> startsWith x ''bestmove'' \<and> parse_info fenText depth x = None"
    and "startsWith l ''bestmove''"
    and "bestmove_token l = Some m"
  shows "resolved (state_after (onData cleanup fenText depth chunk st))
           = Some \<lparr> eval_type = Cp, eval_value = 0, bestMove = m, pv = [m] \<rparr>"
proof -
  have none: "scored_before fenText depth pre (cur_evaluation st) = None"
    using assms(1,4) by (simp add: scored_before_def last_scored_def filter_empty_conv)
  have quiet: "\<forall>x\<in>set pre. \<not> startsWith x ''bestmove''"
    using assms(4) by simp
  from onData_first_bestmove [OF assms(2,3) quiet assms(5,6), of cleanup fenText depth]
  obtain s where s: "onData cleanup fenText depth chunk st = process_lines cleanup fenText depth post s"
    "resolved s = Some \<lparr> eval_type = Cp, eval_value = 0, bestMove = m, pv = [m] \<rparr>"
    "\<not> aliased s"
    unfolding none by auto
  show ?thesis
    unfolding s(1) using s(2,3) by (rule settled_fresh_stays)
qed

lemma fallback_evaluation_example:
  "cur_evaluation (fresh_handler (0::nat)) = None
   \<and> resolved (fresh_handler (0::nat)) = None
   \<and> split_on CHR 0x0A (outputText (fresh_handler (0::nat)) @ ''bestmove e2e4 ponder e7e5'' @ [CHR 0x0A])
       = [] @ ''bestmove e2e4 ponder e7e5'' # [[]]
   \<and> startsWith ''bestmove e2e4 ponder e7e5'' ''bestmove''
   \<and> bestmove_token ''bestmove e2e4 ponder e7e5'' = Some ''e2e4''
   \<and> resolved (state_after (onData Suc ''8/8/8/8/8/8/8/K1k5 w - - 0 1'' 12
        (''bestmove e2e4 ponder e7e5'' @ [CHR 0x0A]) (fresh_handler (0::nat))))
       = Some \<lparr> eval_type = Cp, eval_value = 0, bestMove = ''e2e4'', pv = [''e2e4''] \<rparr>"
proof -
  have h1: "cur_evaluation (fresh_handler (0::nat)) = None"
    and h2: "resolved (fresh_handler (0::nat)) = None"
    by (simp_all add: fresh_handler_def)
  have h3: "split_on CHR 0x0A (outputText (fresh_handler (0::nat)) @ ''bestmove e2e4 ponder e7e5'' @ [CHR 0x0A])
       = [] @ ''bestmove e2e4 ponder e7e5'' # [[]]"
    by (simp add: fresh_handler_def)
  have h4: "\<forall>x\<in>set []. \<not> startsWith x ''bestmove'' \<and> parse_info ''8/8/8/8/8/8/8/K1k5 w - - 0 1'' 12 x = None"
    by simp
  have h5: "startsWith ''bestmove e2e4 ponder e7e5'' ''bestmove''"
    by simp
  have h6: "bestmove_token ''bestmove e2e4 ponder e7e5'' = Some ''e2e4''"
    by code_simp
  from fallback_evaluation [OF h1 h2 h3 h4 h5 h6, of Suc] h1 h2 h3 h5 h6
  show ?thesis by blast
qed


text \<open>
  C4. The code at a failing input. The engine answers \<open>bestmove e2e4\<close> with no score
  line before it, and the line reaches the handler in two chunks, \<open>bestmove e2\<close> and
  the rest. The handler reads the unterminated piece as a line: at the first chunk it
  runs \<open>cleanup\<close> and resolves the request with the cut token,
  \<open>{type: 'cp', value: 0, bestMove: 'e2', pv: ['e2']}\<close>, and the second chunk no
  longer reaches it. When the first chunk ends behind \<open>bestmove\<close>, reading the
  token raises a TypeError and the request stays pending.
\<close>

theorem cut_bestmove_line:
  "feed Suc ''8/8/8/8/8/8/8/K1k5 w - - 0 1'' 12 [''bestmove e2'', ''e4'' @ [CHR 0x0A]]
       (fresh_handler (0::nat))
     = Inr \<lparr> outputText = ''bestmove e2'', cur_evaluation = None,
             resolved = Some \<lparr> eval_type = Cp, eval_value = 0, bestMove = ''e2'', pv = [''e2''] \<rparr>,
             aliased = False, env = 1 \<rparr>
   \<and> feed Suc ''8/8/8/8/8/8/8/K1k5 w - - 0 1'' 12 [''bestmove'', '' e2e4'' @ [CHR 0x0A]]
       (fresh_handler (0::nat))
     = Inl (TypeError,
            \<lparr> outputText = ''bestmove'', cur_evaluation = None, resolved = None,
              aliased = False, env = 0 \<rparr>)"
  by code_simp


lemma parse_info_pv:
  "parse_info f d q = Some e \<Longrightarrow>
   pv e = (case match_pv q of Some t \<Rightarrow> split_on CHR '' '' t | None \<Rightarrow> [])"
  by (auto simp: parse_info_def Let_def split: if_splits option.splits)

lemma last_scored_Some:
  "last_scored f d ls = Some q \<Longrightarrow> \<exists>e. parse_info f d q = Some e"
proof -
  assume a: "last_scored f d ls = Some q"
  let ?qs = "filter (\<lambda>x. parse_info f d x \<noteq> None) ls"
  from a have ne: "?qs \<noteq> []" and q: "q = last ?qs"
    by (auto simp: last_scored_def Let_def split: if_splits)
  from ne have "last ?qs \<in> set ?qs" by (rule last_in_set)
  with q show ?thesis by auto
qed

text \<open>
  C5, as amended. When a pending request meets its first bestmove line with a move token,
  it is resolved, and the principal variation of the result is the one recorded by the
  last qualifying score line before the bestmove line: the tokens behind the first
  \<open>pv\<close> of that line, and the empty list when the line has no such token. Without
  any recorded evaluation it is \<open>[m]\<close>. So the length is at least 1 exactly when the
  last qualifying score line carries a pv token (or no evaluation was recorded).
\<close>

theorem resolved_pv:
  assumes "resolved st = None"
    and "split_on CHR 0x0A (outputText st @ chunk) = pre @ l # post"
    and "\<forall>x\<in>set pre. \<not> startsWith x ''bestmove''"
    and "startsWith l ''bestmove''"
    and "bestmove_token l = Some m"
  shows "\<exists>v. resolved (state_after (onData cleanup fenText depth chunk st)) = Some v
           \<and> pv v = (case last_scored fenText depth pre of
                       Some q \<Rightarrow> (case match_pv q of
                                    Some t \<Rightarrow> split_on CHR '' '' t
                                  | None \<Rightarrow> [])
                     | None \<Rightarrow> (case cur_evaluation st of
                                   Some e \<Rightarrow> pv e
                                 | None \<Rightarrow> [m]))
           \<and> (1 \<le> length (pv v))
               = (case last_scored fenText depth pre of
                    Some q \<Rightarrow> match_pv q \<noteq> None
                  | None \<Rightarrow> (case cur_evaluation st of
                                Some e \<Rightarrow> pv e \<noteq> []
                              | None \<Rightarrow> True))"
proof -
  from onData_first_bestmove [OF assms, of cleanup fenText depth]
  obtain s where s: "onData cleanup fenText depth chunk st = process_lines cleanup fenText depth post s"
    "resolved s =
       Some (case scored_before fenText depth pre (cur_evaluation st) of
               None \<Rightarrow> \<lparr> eval_type = Cp, eval_value = 0, bestMove = m, pv = [m] \<rparr>
             | Some e \<Rightarrow> e\<lparr>bestMove := m\<rparr>)"
    "aliased s \<longrightarrow> cur_evaluation s = resolved s"
    by auto
  let ?v0 = "case scored_before fenText depth pre (cur_evaluation st) of
               None \<Rightarrow> \<lparr> eval_type = Cp, eval_value = 0, bestMove = m, pv = [m] \<rparr>
             | Some e \<Rightarrow> e\<lparr>bestMove := m\<rparr>"
  from settled_pv_stays [OF s(2,3), of cleanup fenText depth post]
  obtain v where v: "resolved (state_after (onData cleanup fenText depth chunk st)) = Some v"
    "pv v = pv ?v0"
    unfolding s(1) by auto
  have pv0: "pv ?v0 = (case last_scored fenText depth pre of
                       Some q \<Rightarrow> (case match_pv q of
                                    Some t \<Rightarrow> split_on CHR '' '' t
                                  | None \<Rightarrow> [])
                     | None \<Rightarrow> (case cur_evaluation st of
                                   Some e \<Rightarrow> pv e
                                 | None \<Rightarrow> [m]))"
  proof (cases "last_scored fenText depth pre")
    case None
    then show ?thesis
      by (simp add: scored_before_def split: option.splits)
  next
    case (Some q)
    from last_scored_Some [OF Some] obtain e where e: "parse_info fenText depth q = Some e" ..
    from parse_info_pv [OF e] Some e show ?thesis
      by (simp add: scored_before_def)
  qed
  have len: "(1 \<le> length (pv ?v0))
               = (case last_scored fenText depth pre of
                    Some q \<Rightarrow> match_pv q \<noteq> None
                  | None \<Rightarrow> (case cur_evaluation st of
                                Some e \<Rightarrow> pv e \<noteq> []
                              | None \<Rightarrow> True))"
    unfolding pv0
    by (auto simp: Suc_le_eq split_on_nonempty split: option.splits)
  from v pv0 len show ?thesis by simp
qed


theorem resolved_pv_witness:
  "resolved (fresh_handler (0::nat)) = None
   \<and> split_on CHR 0x0A (outputText (fresh_handler (0::nat))
        @ ''info depth 10 score cp 20 pv a1a2 c1d1'' @ [CHR 0x0A] @ ''bestmove a1a2'' @ [CHR 0x0A])
       = [''info depth 10 score cp 20 pv a1a2 c1d1''] @ ''bestmove a1a2'' # [[]]
   \<and> \<not> startsWith ''info depth 10 score cp 20 pv a1a2 c1d1'' ''bestmove''
   \<and> startsWith ''bestmove a1a2'' ''bestmove''
   \<and> bestmove_token ''bestmove a1a2'' = Some ''a1a2''
   \<and> (\<exists>v. resolved (state_after (onData Suc ''8/8/8/8/8/8/8/K1k5 w - - 0 1'' 10
          (''info depth 10 score cp 20 pv a1a2 c1d1'' @ [CHR 0x0A] @ ''bestmove a1a2'' @ [CHR 0x0A])
          (fresh_handler (0::nat)))) = Some v
        \<and> pv v = [''a1a2'', ''c1d1''] \<and> 1 \<le> length (pv v))"
proof -
  have h1: "resolved (fresh_handler (0::nat)) = None"
    by (simp add: fresh_handler_def)
  have h2: "split_on CHR 0x0A (outputText (fresh_handler (0::nat))
        @ ''info depth 10 score cp 20 pv a1a2 c1d1'' @ [CHR 0x0A] @ ''bestmove a1a2'' @ [CHR 0x0A])
       = [''info depth 10 score cp 20 pv a1a2 c1d1''] @ ''bestmove a1a2'' # [[]]"
    by code_simp
  have h3: "\<forall>x\<in>set [''info depth 10 score cp 20 pv a1a2 c1d1'']. \<not> startsWith x ''bestmove''"
    by simp
  have h4: "startsWith ''bestmove a1a2'' ''bestmove''"
    by simp
  have h5: "bestmove_token ''bestmove a1a2'' = Some ''a1a2''"
    by code_simp
  have ls: "last_scored ''8/8/8/8/8/8/8/K1k5 w - - 0 1'' 10 [''info depth 10 score cp 20 pv a1a2 c1d1'']
              = Some ''info depth 10 score cp 20 pv a1a2 c1d1''"
    by code_simp
  have mp: "match_pv ''info depth 10 score cp 20 pv a1a2 c1d1'' = Some ''a1a2 c1d1''"
    by code_simp
  have sp: "split_on CHR '' '' ''a1a2 c1d1'' = [''a1a2'', ''c1d1'']"
    by code_simp
  from resolved_pv [OF h1 h2 h3 h4 h5, of Suc "''8/8/8/8/8/8/8/K1k5 w - - 0 1''" 10]
  obtain v where v: "resolved (state_after (onData Suc ''8/8/8/8/8/8/8/K1k5 w - - 0 1'' 10
          (''info depth 10 score cp 20 pv a1a2 c1d1'' @ [CHR 0x0A] @ ''bestmove a1a2'' @ [CHR 0x0A])
          (fresh_handler (0::nat)))) = Some v"
    "pv v = (case last_scored ''8/8/8/8/8/8/8/K1k5 w - - 0 1'' 10
                    [''info depth 10 score cp 20 pv a1a2 c1d1''] of
               Some q \<Rightarrow> (case match_pv q of Some t \<Rightarrow> split_on CHR '' '' t | None \<Rightarrow> [])
             | None \<Rightarrow> (case cur_evaluation (fresh_handler (0::nat)) of
                           Some e \<Rightarrow> pv e
                         | None \<Rightarrow> [''a1a2'']))"
    by blast
  have "pv v = [''a1a2'', ''c1d1'']"
    using v(2) by (simp only: ls mp sp option.simps)
  with v(1) have "\<exists>v. resolved (state_after (onData Suc ''8/8/8/8/8/8/8/K1k5 w - - 0 1'' 10
          (''info depth 10 score cp 20 pv a1a2 c1d1'' @ [CHR 0x0A] @ ''bestmove a1a2'' @ [CHR 0x0A])
          (fresh_handler (0::nat)))) = Some v
        \<and> pv v = [''a1a2'', ''c1d1''] \<and> 1 \<le> length (pv v)"
    by simp
  with h1 h2 h4 h5 show ?thesis by simp
qed

text \<open>
  The claim C5 as stated fails: a qualifying score line without a pv token, followed by
  the bestmove line, resolves the request with an empty principal variation.
\<close>

theorem empty_pv_resolved:
  "resolved (state_after (onData Suc ''8/8/8/8/8/8/8/K1k5 w - - 0 1'' 10
       (''info depth 10 score cp 20'' @ [CHR 0x0A] @ ''bestmove a1a2'' @ [CHR 0x0A])
       (fresh_handler (0::nat))))
     = Some \<lparr> eval_type = Cp, eval_value = 20, bestMove = ''a1a2'', pv = [] \<rparr>"
  by code_simp

lemma process_lines_single: "process_lines c f d [l] st = process_line c f d l st"
  by (cases "process_line c f d l st") simp_all

text \<open>
  What one piece does to the variable \<open>evaluation\<close>: a qualifying piece replaces
  it by its score, negated exactly when the second field of the FEN is \<open>b\<close>; a
  bestmove piece with a field sets its \<open>bestMove\<close>; any other piece, so any piece
  that reports a lower depth, leaves it as it is.
\<close>

lemma process_line_evaluation:
  "cur_evaluation (state_after (process_line cleanup fenText depth line st))
     = (if qualifying depth line
        then (case match_score line of
                Some (kind, digits) \<Rightarrow>
                  Some \<lparr> eval_type = kind,
                         eval_value = (if side_to_move fenText = Some ''b''
                                       then - parseInt digits else parseInt digits),
                         bestMove = (case match_pv line of
                                       Some t \<Rightarrow> trim (hd (split_on CHR '' '' t))
                                     | None \<Rightarrow> []),
                         pv = (case match_pv line of
                                 Some t \<Rightarrow> split_on CHR '' '' t
                               | None \<Rightarrow> []) \<rparr>
              | None \<Rightarrow> cur_evaluation st)
        else if startsWith line ''bestmove''
        then (case bestmove_token line of
                Some m \<Rightarrow> map_option (\<lambda>e. e\<lparr>bestMove := m\<rparr>) (cur_evaluation st)
              | None \<Rightarrow> cur_evaluation st)
        else cur_evaluation st)"
proof (cases "startsWith line ''bestmove''")
  case True
  then have ni: "\<not> startsWith line ''info depth''"
    by (cases line) simp_all
  have same: "info_step fenText depth line st = st"
    using True by (simp add: info_step_def bestmove_not_info)
  show ?thesis
    using True ni
    by (cases "bestmove_token line"; cases "cur_evaluation st")
      (simp_all add: process_line_def same Let_def qualifying_def)
next
  case False
  then show ?thesis
    by (auto simp: process_line_other info_step_def parse_info_def qualifying_def Let_def
        split: option.splits)
qed

text \<open>Extending a piece keeps it qualifying.\<close>

lemma parse_info_qualifying: "(parse_info f d l \<noteq> None) = qualifying d l"
  by (auto simp: parse_info_def qualifying_def Let_def split: option.splits)

lemma startsWith_append: "startsWith s p \<Longrightarrow> startsWith (s @ r) p"
  by (induction s p rule: startsWith.induct) auto

lemma startsWith_length: "startsWith s p \<Longrightarrow> length p \<le> length s"
  by (induction s p rule: startsWith.induct) auto

lemma startsWith_append_long: "length p \<le> length s \<Longrightarrow> startsWith (s @ r) p = startsWith s p"
  by (induction s p rule: startsWith.induct) auto

lemma takeWhile_append_ex: "\<exists>zs. takeWhile P (xs @ r) = takeWhile P xs @ zs"
  by (induction xs) auto

lemma takeWhile_nonempty: "(takeWhile P xs \<noteq> []) = (xs \<noteq> [] \<and> P (hd xs))"
  by (cases xs) auto

lemma match_depth_length: "match_depth s = Some ds \<Longrightarrow> 7 \<le> length s"
proof (induction s)
  case Nil
  then show ?case by simp
next
  case (Cons c cs)
  show ?case
  proof (cases "startsWith (c # cs) ''depth '' \<and> takeWhile is_digit (drop 6 (c # cs)) \<noteq> []")
    case True
    then have "6 \<le> length (c # cs)" "drop 6 (c # cs) \<noteq> []"
      using startsWith_length [of "c # cs" "''depth ''"] by auto
    then show ?thesis by simp
  next
    case False
    with Cons show ?thesis by auto
  qed
qed

lemma depth_test_append:
  assumes "7 \<le> length s"
  shows "(startsWith (s @ r) ''depth '' \<and> takeWhile is_digit (drop 6 (s @ r)) \<noteq> [])
       = (startsWith s ''depth '' \<and> takeWhile is_digit (drop 6 s) \<noteq> [])"
proof -
  from assms have ne: "drop 6 s \<noteq> []" by simp
  then have "hd (drop 6 (s @ r)) = hd (drop 6 s)" using assms by simp
  with ne show ?thesis
    using assms by (simp add: takeWhile_nonempty startsWith_append_long)
qed

lemma match_depth_hit:
  "startsWith s ''depth '' \<Longrightarrow> takeWhile is_digit (drop 6 s) \<noteq> [] \<Longrightarrow>
   match_depth s = Some (takeWhile is_digit (drop 6 s))"
  by (cases s) simp_all

lemma match_depth_miss:
  "\<not> (startsWith (c # cs) ''depth '' \<and> takeWhile is_digit (drop 6 (c # cs)) \<noteq> []) \<Longrightarrow>
   match_depth (c # cs) = match_depth cs"
  by auto

lemma match_depth_append:
  "match_depth s = Some ds \<Longrightarrow> \<exists>zs. match_depth (s @ r) = Some (ds @ zs)"
proof (induction s)
  case Nil
  then show ?case by simp
next
  case (Cons c cs)
  show ?case
  proof (cases "startsWith (c # cs) ''depth '' \<and> takeWhile is_digit (drop 6 (c # cs)) \<noteq> []")
    case True
    then have len: "6 \<le> length (c # cs)"
      using startsWith_length [of "c # cs" "''depth ''"] by simp
    from True Cons.prems have ds: "ds = takeWhile is_digit (drop 6 (c # cs))" by simp
    from len have d: "drop 6 ((c # cs) @ r) = drop 6 (c # cs) @ r" by simp
    obtain zs where zs: "takeWhile is_digit (drop 6 (c # cs) @ r)
                           = takeWhile is_digit (drop 6 (c # cs)) @ zs"
      using takeWhile_append_ex by blast
    have st: "startsWith ((c # cs) @ r) ''depth ''"
      using True by (intro startsWith_append) simp
    have ne: "takeWhile is_digit (drop 6 ((c # cs) @ r)) \<noteq> []"
      unfolding d zs using True by blast
    have "match_depth ((c # cs) @ r) = Some (takeWhile is_digit (drop 6 ((c # cs) @ r)))"
      using st ne by (rule match_depth_hit)
    then show ?thesis unfolding d zs ds by blast
  next
    case False
    with Cons.prems have m: "match_depth cs = Some ds" by auto
    from match_depth_length [OF Cons.prems] have "7 \<le> length (c # cs)" .
    from depth_test_append [OF this, of r] False
    have "\<not> (startsWith ((c # cs) @ r) ''depth ''
             \<and> takeWhile is_digit (drop 6 ((c # cs) @ r)) \<noteq> [])" by blast
    then have "\<not> (startsWith (c # (cs @ r)) ''depth ''
             \<and> takeWhile is_digit (drop 6 (c # (cs @ r))) \<noteq> [])" by simp
    then have "match_depth (c # (cs @ r)) = match_depth (cs @ r)"
      by (rule match_depth_miss)
    with Cons.IH [OF m] show ?thesis by simp
  qed
qed

lemma foldl_digits_mono: "n \<le> foldl (\<lambda>n c. 10 * n + digit_val c) n xs"
proof (induction xs arbitrary: n)
  case Nil
  then show ?case by simp
next
  case (Cons x xs)
  have "n \<le> 10 * n + digit_val x" by simp
  also have "\<dots> \<le> foldl (\<lambda>n c. 10 * n + digit_val c) (10 * n + digit_val x) xs"
    by (rule Cons.IH)
  finally show ?case by simp
qed

lemma parse_digits_append: "parse_digits ds \<le> parse_digits (ds @ zs)"
  by (simp add: parse_digits_def foldl_digits_mono)

lemma reported_depth_nonneg: "0 \<le> reported_depth s"
  by (simp add: reported_depth_def split: option.splits)

lemma reported_depth_append: "d \<le> reported_depth s \<Longrightarrow> d \<le> reported_depth (s @ r)"
proof (cases "match_depth s")
  case None
  assume "d \<le> reported_depth s"
  with None have "d \<le> 0" by (simp add: reported_depth_def)
  with reported_depth_nonneg [of "s @ r"] show ?thesis by simp
next
  case (Some ds)
  assume a: "d \<le> reported_depth s"
  from match_depth_append [OF Some, of r] obtain zs where
    "match_depth (s @ r) = Some (ds @ zs)" ..
  with Some a parse_digits_append [of ds zs] show ?thesis
    by (simp add: reported_depth_def)
qed

lemma signed_digits_append: "signed_digits xs \<noteq> None \<Longrightarrow> signed_digits (xs @ r) \<noteq> None"
  by (cases xs) (auto simp: signed_digits_def takeWhile_nonempty split: if_splits)

lemma score_at_append: "score_at s \<noteq> None \<Longrightarrow> score_at (s @ r) \<noteq> None"
proof -
  assume a: "score_at s \<noteq> None"
  show ?thesis
  proof (cases "startsWith s ''score cp ''")
    case True
    then have len: "9 \<le> length s" using startsWith_length [of s "''score cp ''"] by simp
    from True a have "signed_digits (drop 9 s) \<noteq> None" by (simp add: score_at_def)
    then have "signed_digits (drop 9 s @ r) \<noteq> None" by (rule signed_digits_append)
    moreover have "startsWith (s @ r) ''score cp ''" using True by (rule startsWith_append)
    ultimately show ?thesis using len by (simp add: score_at_def del: startsWith.simps)
  next
    case False
    with a have m: "startsWith s ''score mate ''"
      by (auto simp: score_at_def split: if_splits)
    then have len: "11 \<le> length s" using startsWith_length [of s "''score mate ''"] by simp
    from False m a have "signed_digits (drop 11 s) \<noteq> None" by (simp add: score_at_def)
    then have sd: "signed_digits (drop 11 s @ r) \<noteq> None" by (rule signed_digits_append)
    have m': "startsWith (s @ r) ''score mate ''" using m by (rule startsWith_append)
    have "\<not> startsWith (s @ r) ''score cp ''"
      using False len startsWith_append_long [of "''score cp ''" s r] by simp
    with m' sd len show ?thesis by (simp add: score_at_def del: startsWith.simps)
  qed
qed

lemma match_score_append: "match_score s \<noteq> None \<Longrightarrow> match_score (s @ r) \<noteq> None"
proof (induction s)
  case Nil
  then show ?case by simp
next
  case (Cons c cs)
  show ?case
  proof (cases "score_at (c # cs)")
    case None
    with Cons have "match_score (cs @ r) \<noteq> None" by simp
    then show ?thesis by (cases "score_at ((c # cs) @ r)") auto
  next
    case (Some a)
    then have "score_at ((c # cs) @ r) \<noteq> None" by (intro score_at_append) simp
    then show ?thesis by auto
  qed
qed

lemma qualifying_append: "qualifying d s \<Longrightarrow> qualifying d (s @ r)"
  by (simp add: qualifying_def startsWith_append reported_depth_append match_score_append)

lemma split_on_append:
  "split_on sep (a @ b)
     = butlast (split_on sep a) @ (last (split_on sep a) @ hd (split_on sep b)) # tl (split_on sep b)"
proof (induction a)
  case Nil
  show ?case using split_on_nonempty [of sep b] by (cases "split_on sep b") simp_all
next
  case (Cons c a)
  obtain x xs where xs: "split_on sep a = x # xs"
    using split_on_nonempty [of sep a] by (cases "split_on sep a") auto
  show ?case
  proof (cases "c = sep")
    case True
    with Cons xs show ?thesis by simp
  next
    case False
    with Cons xs show ?thesis by (cases xs) simp_all
  qed
qed

lemma first_hit_prefix:
  assumes "xs @ l # post = ys @ zs" "\<forall>y\<in>set ys. \<not> P y" "P l"
  shows "\<exists>us. xs = ys @ us \<and> us @ l # post = zs"
proof -
  from assms(1) consider us where "xs = ys @ us" "us @ l # post = zs"
    | us where "xs @ us = ys" "l # post = us @ zs"
    by (auto simp: append_eq_append_conv2)
  then show ?thesis
  proof cases
    case 1
    then show ?thesis by blast
  next
    case 2
    show ?thesis
    proof (cases us)
      case Nil
      with 2 show ?thesis by simp
    next
      case (Cons u us')
      with 2 have "l \<in> set ys" by auto
      with assms(2,3) show ?thesis by blast
    qed
  qed
qed

text \<open>A qualifying piece of the old buffer gives a qualifying piece before the first bestmove piece.\<close>

lemma qualifying_survives:
  assumes old: "\<forall>x\<in>set (split_on CHR 0x0A out). \<not> startsWith x ''bestmove''"
    and q: "p \<in> set (split_on CHR 0x0A out)" "qualifying d p"
    and new: "split_on CHR 0x0A (out @ chunk) = pre @ l # post"
    and best: "startsWith l ''bestmove''"
  shows "\<exists>x\<in>set pre. qualifying d x"
proof -
  let ?h = "hd (split_on CHR 0x0A chunk)"
  let ?t = "tl (split_on CHR 0x0A chunk)"
  obtain ys y where O: "split_on CHR 0x0A out = ys @ [y]"
    using split_on_nonempty [of "CHR 0x0A" out] by (cases "split_on CHR 0x0A out" rule: rev_exhaust) auto
  have N: "pre @ l # post = ys @ ((y @ ?h) # ?t)"
    using new split_on_append [of "CHR 0x0A" out chunk] by (simp add: O)
  have nb: "\<forall>x\<in>set ys. \<not> startsWith x ''bestmove''"
    using old by (simp add: O)
  from first_hit_prefix [where P = "\<lambda>x. startsWith x ''bestmove''", OF N nb best] obtain us where
    us: "pre = ys @ us" "us @ l # post = (y @ ?h) # ?t"
    by blast
  have "parse_info [] d l = None"
    using best by (rule bestmove_not_info)
  then have lq: "\<not> qualifying d l"
    using parse_info_qualifying [of "[]" d l] by simp
  from q(1) have "p \<in> set ys \<or> p = y"
    by (auto simp: O)
  then show ?thesis
  proof
    assume "p \<in> set ys"
    with us(1) q(2) show ?thesis by auto
  next
    assume pl: "p = y"
    with q(2) have "qualifying d y" by simp
    then have ext: "qualifying d (y @ ?h)" by (rule qualifying_append)
    show ?thesis
    proof (cases us)
      case Nil
      with us(2) have "l = y @ ?h" by simp
      with ext lq show ?thesis by simp
    next
      case (Cons u us')
      with us(2) have "u = y @ ?h" by simp
      with Cons us(1) ext show ?thesis by auto
    qed
  qed
qed

lemma split_on_join:
  "concat (map (\<lambda>x. x @ [sep]) (butlast (split_on sep s))) @ last (split_on sep s) = s"
proof (induction s)
  case Nil
  then show ?case by simp
next
  case (Cons c s)
  obtain x xs where xs: "split_on sep s = x # xs"
    using split_on_nonempty [of sep s] by (cases "split_on sep s") auto
  show ?case
  proof (cases "c = sep")
    case True
    with Cons xs show ?thesis by simp
  next
    case False
    with Cons xs show ?thesis by (cases xs) simp_all
  qed
qed

lemma last_scored_filter:
  "last_scored f d ls
     = (case filter (qualifying d) ls of [] \<Rightarrow> None | q # qs \<Rightarrow> Some (last (q # qs)))"
proof -
  have "(\<lambda>x. parse_info f d x \<noteq> None) = qualifying d"
    by (rule ext) (rule parse_info_qualifying)
  then have "last_scored f d ls
               = (let scored = filter (qualifying d) ls
                  in if scored = [] then None else Some (last scored))"
    unfolding last_scored_def by (rule arg_cong [where f = "\<lambda>P. let scored = filter P ls in if scored = [] then None else Some (last scored)"])
  then show ?thesis
    by (cases "filter (qualifying d) ls") (simp_all add: Let_def)
qed

lemma last_scored_mem:
  assumes "last_scored f d ls = Some q"
  shows "q \<in> set ls \<and> qualifying d q"
proof -
  let ?qs = "filter (qualifying d) ls"
  from assms have ne: "?qs \<noteq> []" and q: "q = last ?qs"
    by (auto simp: last_scored_filter split: list.splits)
  from ne have "last ?qs \<in> set ?qs" by (rule last_in_set)
  with q show ?thesis by auto
qed

lemma last_scored_None: "(last_scored f d ls = None) = (\<forall>x\<in>set ls. \<not> qualifying d x)"
proof -
  have "(last_scored f d ls = None) = (filter (qualifying d) ls = [])"
    by (simp add: last_scored_filter split: list.splits)
  then show ?thesis by (simp add: filter_empty_conv)
qed

lemma bestmove_throws:
  assumes "\<forall>x\<in>set pre. \<not> startsWith x ''bestmove''"
    and "startsWith l ''bestmove''" and "bestmove_token l = None"
  shows "\<exists>t. process_lines c f d (pre @ l # post) st = Inl t"
proof -
  have "process_lines c f d pre st = Inr (foldl (\<lambda>s x. info_step f d x s) st pre)"
    using assms(1) by (rule process_lines_no_bestmove)
  then show ?thesis
    using assms(2,3) by (simp add: process_lines_append process_line_def Let_def)
qed

lemma settled_score_stays:
  assumes "resolved st = Some v" "aliased st \<longrightarrow> cur_evaluation st = resolved st"
  shows "\<exists>v'. resolved (state_after (process_lines c f d ls st)) = Some v'
            \<and> eval_type v' = eval_type v \<and> eval_value v' = eval_value v \<and> pv v' = pv v"
proof -
  let ?P = "\<lambda>s. (\<exists>v'. resolved s = Some v'
                  \<and> eval_type v' = eval_type v \<and> eval_value v' = eval_value v \<and> pv v' = pv v)
                \<and> (aliased s \<longrightarrow> cur_evaluation s = resolved s)"
  have "?P (state_after (process_lines c f d ls st))"
    by (rule process_lines_invariant [where P = ?P])
      (auto simp: assms process_line_def info_step_def Let_def split: option.splits)
  then show ?thesis by simp
qed

lemma pending_has_no_bestmove:
  assumes "resolved st = None" "onData c f d chunk st = Inr st'" "resolved st' = None"
  shows "\<forall>x\<in>set (split_on CHR 0x0A (outputText st @ chunk)). \<not> startsWith x ''bestmove''"
proof (rule ccontr)
  assume "\<not> ?thesis"
  then have "\<exists>x\<in>set (split_on CHR 0x0A (outputText st @ chunk)). startsWith x ''bestmove''"
    by simp
  from split_list_first_prop [OF this] obtain pre l post where
    lines: "split_on CHR 0x0A (outputText st @ chunk) = pre @ l # post"
    and best: "startsWith l ''bestmove''"
    and quiet: "\<forall>y\<in>set pre. \<not> startsWith y ''bestmove''"
    by blast
  show False
  proof (cases "bestmove_token l")
    case None
    from bestmove_throws [OF quiet best None, of c f d post "st\<lparr>outputText := outputText st @ chunk\<rparr>"]
    show False using assms(2) by (simp add: onData_def lines)
  next
    case (Some m)
    from onData_first_bestmove [OF assms(1) lines quiet best Some, of c f d]
    obtain s v where s: "onData c f d chunk st = process_lines c f d post s"
      "resolved s = Some v" "aliased s \<longrightarrow> cur_evaluation s = resolved s"
      by auto
    from s(1) assms(2) have "process_lines c f d post s = Inr st'" by simp
    with settled_pv_stays [OF s(2,3), of c f d post] assms(3)
    show False by simp
  qed
qed

lemma qualifying_extends:
  assumes "p \<in> set (split_on CHR 0x0A out)" "qualifying d p"
  shows "\<exists>x\<in>set (split_on CHR 0x0A (out @ chunk)). qualifying d x"
proof -
  obtain ys y where O: "split_on CHR 0x0A out = ys @ [y]"
    using split_on_nonempty [of "CHR 0x0A" out]
    by (cases "split_on CHR 0x0A out" rule: rev_exhaust) auto
  have N: "split_on CHR 0x0A (out @ chunk)
             = ys @ ((y @ hd (split_on CHR 0x0A chunk)) # tl (split_on CHR 0x0A chunk))"
    using split_on_append [of "CHR 0x0A" out chunk] by (simp add: O)
  from assms(1) have "p \<in> set ys \<or> p = y" by (auto simp: O)
  then show ?thesis
  proof
    assume "p \<in> set ys"
    with assms(2) show ?thesis unfolding N by auto
  next
    assume "p = y"
    with assms(2) have "qualifying d y" by simp
    then have "qualifying d (y @ hd (split_on CHR 0x0A chunk))" by (rule qualifying_append)
    then show ?thesis unfolding N by auto
  qed
qed

lemma pending_ok_step:
  assumes ok: "pending_ok d st" and step: "onData c f d chunk st = Inr st'"
    and pend: "resolved st' = None"
  shows "pending_ok d st' \<and> outputText st' = outputText st @ chunk"
proof -
  let ?N = "split_on CHR 0x0A (outputText st @ chunk)"
  let ?st1 = "st\<lparr>outputText := outputText st @ chunk\<rparr>"
  from ok have r: "resolved st = None" by (simp add: pending_ok_def)
  from pending_has_no_bestmove [OF r step pend]
  have nb: "\<forall>x\<in>set ?N. \<not> startsWith x ''bestmove''" .
  have "onData c f d chunk st = Inr (foldl (\<lambda>s x. info_step f d x s) ?st1 ?N)"
    using process_lines_no_bestmove [OF nb, of c f d ?st1] by (simp add: onData_def)
  with step have st': "st' = foldl (\<lambda>s x. info_step f d x s) ?st1 ?N" by simp
  have out: "outputText st' = outputText st @ chunk"
    unfolding st' by simp
  have "cur_evaluation ?st1 = cur_evaluation st" by simp
  with foldl_info_step_evaluation [of f d ?st1 ?N]
  have ev: "cur_evaluation st'
              = (case last_scored f d ?N of None \<Rightarrow> cur_evaluation st | Some q \<Rightarrow> parse_info f d q)"
    unfolding st' by (simp only:)
  have "\<exists>x\<in>set ?N. qualifying d x" if "cur_evaluation st' \<noteq> None"
  proof (cases "last_scored f d ?N")
    case (Some q)
    from last_scored_mem [OF Some] show ?thesis by blast
  next
    case None
    with ev that have "cur_evaluation st \<noteq> None" by simp
    with ok obtain p where "p \<in> set (split_on CHR 0x0A (outputText st))" "qualifying d p"
      by (auto simp: pending_ok_def)
    then show ?thesis by (rule qualifying_extends)
  qed
  with nb pend out show ?thesis
    by (simp add: pending_ok_def)
qed

lemma feed_settled: "resolved st \<noteq> None \<Longrightarrow> feed c f d chunks st = Inr st"
  by (cases chunks) simp_all

lemma feed_pending:
  assumes "pending_ok d st" "feed c f d chunks st = Inr st'" "resolved st' = None"
  shows "pending_ok d st' \<and> outputText st' = outputText st @ concat chunks"
  using assms
proof (induction chunks arbitrary: st)
  case Nil
  then show ?case by simp
next
  case (Cons ch chunks)
  from Cons.prems(1) have r: "resolved st = None" by (simp add: pending_ok_def)
  with Cons.prems(2) obtain s1 where
    s1: "onData c f d ch st = Inr s1" "feed c f d chunks s1 = Inr st'"
    by (auto split: sum.splits)
  have p1: "resolved s1 = None"
  proof (rule ccontr)
    assume "resolved s1 \<noteq> None"
    from feed_settled [OF this, of c f d chunks] s1(2) Cons.prems(3) this show False by simp
  qed
  from pending_ok_step [OF Cons.prems(1) s1(1) p1]
  have ok1: "pending_ok d s1" and o1: "outputText s1 = outputText st @ ch" by simp_all
  from Cons.IH [OF ok1 s1(2) Cons.prems(3)] o1 show ?case by simp
qed

lemma pending_ok_fresh: "pending_ok d (fresh_handler e)"
  by (simp add: pending_ok_def fresh_handler_def)


text \<open>
  C6. For every request and every way its output is cut into chunks: when the handler of
  the pending request meets its first bestmove piece, the lines before that piece are
  complete lines of the output, and the evaluation the request resolves with is the
  running best evaluation as the last qualifying line among them leaves it: a line that
  starts with \<open>info depth\<close>, reports a depth of at least \<open>depth - 2\<close> and
  carries a score token. Its kind is the kind of the score, its value the score, negated
  exactly when the side-to-move field of the FEN is \<open>b\<close>, its principal variation
  the one of that line. Lines that report a lower depth play no part, and with no
  qualifying line the result is the neutral evaluation. Between two events the variable
  of the handler can hold the reading of an unterminated piece, as in the sample state;
  every event reads the whole output again, and the result does not depend on it.
\<close>

theorem resolved_from_complete_lines:
  assumes "feed cleanup fenText depth history (fresh_handler e) = Inr st"
    and "resolved st = None"
    and "split_on CHR 0x0A (outputText st @ chunk) = pre @ l # post"
    and "\<forall>x\<in>set pre. \<not> startsWith x ''bestmove''"
    and "startsWith l ''bestmove''"
    and "bestmove_token l = Some m"
  shows "\<exists>v. resolved (state_after (onData cleanup fenText depth chunk st)) = Some v
     \<and> outputText st = concat history
     \<and> pre = take (length pre) (complete_lines (concat history @ chunk))
     \<and> (case filter (qualifying depth) pre of
          [] \<Rightarrow> eval_type v = Cp \<and> eval_value v = 0 \<and> pv v = [m]
        | q # qs \<Rightarrow>
            map_option
              (\<lambda>(kind, digits).
                 (kind, if side_to_move fenText = Some ''b''
                        then - parseInt digits else parseInt digits))
              (match_score (last (q # qs)))
              = Some (eval_type v, eval_value v)
            \<and> pv v = (case match_pv (last (q # qs)) of
                        Some t \<Rightarrow> split_on CHR '' '' t
                      | None \<Rightarrow> []))"
proof -
  from feed_pending [OF pending_ok_fresh assms(1,2)]
  have ok: "pending_ok depth st" and out: "outputText st = concat history"
    by (simp_all add: fresh_handler_def)
  have comp: "pre = take (length pre) (complete_lines (concat history @ chunk))"
    using assms(3) unfolding out complete_lines_def by (simp add: butlast_append)
  from onData_first_bestmove [OF assms(2-6), of cleanup fenText depth]
  obtain s where s: "onData cleanup fenText depth chunk st = process_lines cleanup fenText depth post s"
    "resolved s =
       Some (case scored_before fenText depth pre (cur_evaluation st) of
               None \<Rightarrow> \<lparr> eval_type = Cp, eval_value = 0, bestMove = m, pv = [m] \<rparr>
             | Some e \<Rightarrow> e\<lparr>bestMove := m\<rparr>)"
    "aliased s \<longrightarrow> cur_evaluation s = resolved s"
    by auto
  let ?v0 = "case scored_before fenText depth pre (cur_evaluation st) of
               None \<Rightarrow> \<lparr> eval_type = Cp, eval_value = 0, bestMove = m, pv = [m] \<rparr>
             | Some e \<Rightarrow> e\<lparr>bestMove := m\<rparr>"
  from settled_score_stays [OF s(2,3), of cleanup fenText depth post]
  obtain v where v: "resolved (state_after (onData cleanup fenText depth chunk st)) = Some v"
    "eval_type v = eval_type ?v0" "eval_value v = eval_value ?v0" "pv v = pv ?v0"
    unfolding s(1) by auto
  have body: "case filter (qualifying depth) pre of
          [] \<Rightarrow> eval_type ?v0 = Cp \<and> eval_value ?v0 = 0 \<and> pv ?v0 = [m]
        | q # qs \<Rightarrow>
            map_option
              (\<lambda>(kind, digits).
                 (kind, if side_to_move fenText = Some ''b''
                        then - parseInt digits else parseInt digits))
              (match_score (last (q # qs)))
              = Some (eval_type ?v0, eval_value ?v0)
            \<and> pv ?v0 = (case match_pv (last (q # qs)) of
                        Some t \<Rightarrow> split_on CHR '' '' t
                      | None \<Rightarrow> [])"
  proof (cases "filter (qualifying depth) pre")
    case Nil
    then have none: "last_scored fenText depth pre = None"
      by (simp add: last_scored_filter)
    have "cur_evaluation st = None"
    proof (rule ccontr)
      assume "cur_evaluation st \<noteq> None"
      with ok obtain p where p: "p \<in> set (split_on CHR 0x0A (outputText st))" "qualifying depth p"
        by (auto simp: pending_ok_def)
      from ok have old: "\<forall>x\<in>set (split_on CHR 0x0A (outputText st)). \<not> startsWith x ''bestmove''"
        by (simp add: pending_ok_def)
      from qualifying_survives [OF old p assms(3,5)] Nil show False
        by (simp add: filter_empty_conv)
    qed
    with none Nil show ?thesis by (simp add: scored_before_def)
  next
    case (Cons q qs)
    define ql where "ql = last (q # qs)"
    from Cons have ls: "last_scored fenText depth pre = Some ql"
      unfolding ql_def by (simp add: last_scored_filter)
    from last_scored_mem [OF ls] have "qualifying depth ql" by simp
    then have "map_option
              (\<lambda>(kind, digits).
                 (kind, if side_to_move fenText = Some ''b''
                        then - parseInt digits else parseInt digits))
              (match_score ql)
              = Some (eval_type ?v0, eval_value ?v0)
            \<and> pv ?v0 = (case match_pv ql of
                        Some t \<Rightarrow> split_on CHR '' '' t
                      | None \<Rightarrow> [])"
      using ls
      by (auto simp: scored_before_def parse_info_def qualifying_def Let_def split: option.splits)
    then show ?thesis
      unfolding Cons ql_def list.case .
  qed
  have "case filter (qualifying depth) pre of
          [] \<Rightarrow> eval_type v = Cp \<and> eval_value v = 0 \<and> pv v = [m]
        | q # qs \<Rightarrow>
            map_option
              (\<lambda>(kind, digits).
                 (kind, if side_to_move fenText = Some ''b''
                        then - parseInt digits else parseInt digits))
              (match_score (last (q # qs)))
              = Some (eval_type v, eval_value v)
            \<and> pv v = (case match_pv (last (q # qs)) of
                        Some t \<Rightarrow> split_on CHR '' '' t
                      | None \<Rightarrow> [])"
    using body unfolding v(2,3,4) .
  with v(1) out comp show ?thesis by blast
qed

theorem resolved_from_complete_lines_witness:
  "feed Suc ''8/8/8/8/8/8/8/K1k5 b - - 0 1'' 10 [''info depth 10 score cp 2''] (fresh_handler 0)
     = Inr cut_info_state
   \<and> resolved cut_info_state = None
   \<and> split_on CHR 0x0A (outputText cut_info_state @ cut_info_rest)
       = [''info depth 10 score cp 25 pv e7e5'', ''info depth 3 score cp 900 pv a7a6'']
           @ ''bestmove e7e5'' # [[]]
   \<and> startsWith ''bestmove e7e5'' ''bestmove''
   \<and> bestmove_token ''bestmove e7e5'' = Some ''e7e5''
   \<and> (\<exists>v. resolved (state_after (onData Suc ''8/8/8/8/8/8/8/K1k5 b - - 0 1'' 10
                cut_info_rest cut_info_state)) = Some v
          \<and> eval_type v = Cp \<and> eval_value v = - 25 \<and> pv v = [''e7e5''])"
proof -
  let ?fen = "''8/8/8/8/8/8/8/K1k5 b - - 0 1''"
  let ?l1 = "''info depth 10 score cp 25 pv e7e5''"
  let ?l2 = "''info depth 3 score cp 900 pv a7a6''"
  have h1: "feed Suc ?fen 10 [''info depth 10 score cp 2''] (fresh_handler 0) = Inr cut_info_state"
    by code_simp
  have h2: "resolved cut_info_state = None"
    by simp
  have h3: "split_on CHR 0x0A (outputText cut_info_state @ cut_info_rest)
              = [?l1, ?l2] @ ''bestmove e7e5'' # [[]]"
    by code_simp
  have h4: "\<forall>x\<in>set [?l1, ?l2]. \<not> startsWith x ''bestmove''"
    by simp
  have h5: "startsWith ''bestmove e7e5'' ''bestmove''"
    by simp
  have h6: "bestmove_token ''bestmove e7e5'' = Some ''e7e5''"
    by code_simp
  have q: "filter (qualifying 10) [?l1, ?l2] = [?l1]"
    by code_simp
  have sc: "match_score ?l1 = Some (Cp, ''25'')"
    by code_simp
  have mp: "match_pv ?l1 = Some ''e7e5''"
    by code_simp
  have side: "side_to_move ?fen = Some ''b''"
    by code_simp
  have num: "parseInt ''25'' = 25"
    by code_simp
  have sp: "split_on CHR '' '' ''e7e5'' = [''e7e5'']"
    by code_simp
  from resolved_from_complete_lines [OF h1 h2 h3 h4 h5 h6]
  obtain v where v: "resolved (state_after (onData Suc ?fen 10 cut_info_rest cut_info_state)) = Some v"
    and c: "case filter (qualifying 10) [?l1, ?l2] of
          [] \<Rightarrow> eval_type v = Cp \<and> eval_value v = 0 \<and> pv v = [''e7e5'']
        | q # qs \<Rightarrow>
            map_option
              (\<lambda>(kind, digits).
                 (kind, if side_to_move ?fen = Some ''b''
                        then - parseInt digits else parseInt digits))
              (match_score (last (q # qs)))
              = Some (eval_type v, eval_value v)
            \<and> pv v = (case match_pv (last (q # qs)) of
                        Some t \<Rightarrow> split_on CHR '' '' t
                      | None \<Rightarrow> [])"
    by blast
  from c have "eval_type v = Cp \<and> eval_value v = - 25 \<and> pv v = [''e7e5'']"
    unfolding q list.case last.simps by (simp only: sc mp side num sp option.simps prod.case if_True if_False simp_thms) simp
  with v h1 h2 h3 h5 h6 show ?thesis by blast
qed

section \<open>Properties of the engine pool\<close>

lemma findIndex_Some:
  "findIndex P xs = Some k \<longleftrightarrow> k < length xs \<and> P (xs ! k) \<and> (\<forall>j<k. \<not> P (xs ! j))"
proof (induction xs arbitrary: k)
  case Nil
  then show ?case by simp
next
  case (Cons x xs)
  show ?case
  proof (cases "P x")
    case True
    then show ?thesis by (cases k) auto
  next
    case False
    show ?thesis
    proof (cases k)
      case 0
      with False show ?thesis by auto
    next
      case (Suc n)
      have "(\<forall>j<Suc n. \<not> P ((x # xs) ! j)) = (\<forall>j<n. \<not> P (xs ! j))"
        using False by (auto simp: less_Suc_eq_0_disj)
      with Suc False Cons [of n] show ?thesis by auto
    qed
  qed
qed

lemma findIndex_None: "findIndex P xs = None \<longleftrightarrow> (\<forall>x\<in>set xs. \<not> P x)"
  by (induction xs) auto

text \<open>
  C7. On an initialized pool: when instance \<open>k\<close> is the first that is not busy,
  \<open>evaluate\<close> dispatches the request to it at once (the instance becomes busy with
  the request in flight, its queue unchanged); when the pool has instances and all are
  busy, the request is appended to the queue of instance 0, whatever the other queues hold.
\<close>

theorem evaluate_dispatch:
  "(k < length instances \<and> \<not> busy (instances ! k) \<and> (\<forall>j<k. busy (instances ! j))
      \<longrightarrow> evaluate instances r = Inr (instances[k := runEvaluation (instances ! k) r])
          \<and> busy (runEvaluation (instances ! k) r)
          \<and> running (runEvaluation (instances ! k) r)
               = running (instances ! k) @ [(r, fresh_handler ())]
          \<and> queue (runEvaluation (instances ! k) r) = queue (instances ! k))
   \<and> (instances \<noteq> [] \<and> (\<forall>i\<in>set instances. busy i)
      \<longrightarrow> evaluate instances r
            = Inr (instances[0 := (instances ! 0)\<lparr>queue := queue (instances ! 0) @ [r]\<rparr>]))"
proof (intro conjI impI)
  assume a: "k < length instances \<and> \<not> busy (instances ! k) \<and> (\<forall>j<k. busy (instances ! j))"
  then have "findIndex (\<lambda>i. \<not> busy i) instances = Some k"
    by (simp add: findIndex_Some)
  with a show "evaluate instances r = Inr (instances[k := runEvaluation (instances ! k) r])"
    by (simp add: evaluate_def)
next
  assume a: "instances \<noteq> [] \<and> (\<forall>i\<in>set instances. busy i)"
  then have "findIndex (\<lambda>i. \<not> busy i) instances = None"
    by (simp add: findIndex_None)
  moreover from a have "busy (instances ! 0)"
    by (cases instances) auto
  ultimately show "evaluate instances r
            = Inr (instances[0 := (instances ! 0)\<lparr>queue := queue (instances ! 0) @ [r]\<rparr>])"
    using a by (simp add: evaluate_def)
qed (simp_all add: runEvaluation_def)

theorem evaluate_dispatch_witness:
  "Suc 0 < length [busy_with (rq 1) [], idle_instance]
   \<and> \<not> busy ([busy_with (rq 1) [], idle_instance] ! Suc 0)
   \<and> busy ([busy_with (rq 1) [], idle_instance] ! 0)
   \<and> evaluate [busy_with (rq 1) [], idle_instance] (rq 2)
       = Inr [busy_with (rq 1) [], busy_with (rq 2) []]
   \<and> [busy_with (rq 1) [], busy_with (rq 2) [rq 3]] \<noteq> []
   \<and> busy (busy_with (rq 1) []) \<and> busy (busy_with (rq 2) [rq 3])
   \<and> evaluate [busy_with (rq 1) [], busy_with (rq 2) [rq 3]] (rq 4)
       = Inr [busy_with (rq 1) [rq 4], busy_with (rq 2) [rq 3]]"
proof -
  let ?p1 = "[busy_with (rq 1) [], idle_instance]"
  let ?p2 = "[busy_with (rq 1) [], busy_with (rq 2) [rq 3]]"
  have a1: "Suc 0 < length ?p1" by simp
  have a2: "\<not> busy (?p1 ! Suc 0)" by (simp add: idle_instance_def)
  have a3: "busy (?p1 ! 0)" by simp
  have a4: "\<forall>j<Suc 0. busy (?p1 ! j)" using a3 by simp
  have b1: "?p2 \<noteq> []" by simp
  have b2: "busy (busy_with (rq 1) [])" "busy (busy_with (rq 2) [rq 3])" by simp_all
  have b3: "\<forall>i\<in>set ?p2. busy i" by simp
  from evaluate_dispatch [of "Suc 0" ?p1 "rq 2"] a1 a2 a4
  have e1: "evaluate ?p1 (rq 2) = Inr (?p1[Suc 0 := runEvaluation (?p1 ! Suc 0) (rq 2)])"
    by blast
  have v1: "?p1[Suc 0 := runEvaluation (?p1 ! Suc 0) (rq 2)]
              = [busy_with (rq 1) [], busy_with (rq 2) []]"
    by (simp add: runEvaluation_def idle_instance_def)
  from evaluate_dispatch [of 0 ?p2 "rq 4"] b1 b3
  have e2: "evaluate ?p2 (rq 4) = Inr (?p2[0 := (?p2 ! 0)\<lparr>queue := queue (?p2 ! 0) @ [rq 4]\<rparr>])"
    by blast
  have v2: "?p2[0 := (?p2 ! 0)\<lparr>queue := queue (?p2 ! 0) @ [rq 4]\<rparr>]
              = [busy_with (rq 1) [rq 4], busy_with (rq 2) [rq 3]]"
    by simp
  show ?thesis
    using a1 a2 a3 b1 b2 e1 e2 unfolding v1 v2 by blast
qed

text \<open>
  With at most one bestmove line per data event the pool keeps at most one request in
  flight on every instance: \<open>instance_ok\<close> is an invariant of \<open>evaluate\<close>, of
  such data events and of timeouts.
\<close>

lemma process_line_env:
  "env (state_after (process_line c f d l st))
     = (if startsWith l ''bestmove'' \<and> bestmove_token l \<noteq> None then c (env st) else env st)"
  by (auto simp: process_line_def Let_def split: option.splits)

lemma process_lines_env_one:
  assumes "length (filter (\<lambda>l. startsWith l ''bestmove'') ls) \<le> 1"
  shows "env (state_after (process_lines c f d ls st)) = env st
         \<or> env (state_after (process_lines c f d ls st)) = c (env st)"
  using assms
proof (induction ls arbitrary: st)
  case Nil
  then show ?case by simp
next
  case (Cons l ls)
  show ?case
  proof (cases "startsWith l ''bestmove''")
    case False
    then have "process_line c f d l st = Inr (info_step f d l st)"
      by (rule process_line_other)
    moreover from Cons.prems False
    have "length (filter (\<lambda>l. startsWith l ''bestmove'') ls) \<le> 1" by simp
    ultimately show ?thesis
      using Cons.IH [of "info_step f d l st"] by simp
  next
    case True
    with Cons.prems have none: "\<forall>x\<in>set ls. \<not> startsWith x ''bestmove''"
      by (simp add: filter_empty_conv)
    show ?thesis
    proof (cases "process_line c f d l st")
      case (Inl t)
      with process_line_env [of c f d l st] show ?thesis
        by (cases t) (auto split: if_splits)
    next
      case (Inr st')
      with process_line_env [of c f d l st]
      have "env st' = env st \<or> env st' = c (env st)"
        by (auto split: if_splits)
      with Inr process_lines_no_bestmove [OF none, of c f d st'] show ?thesis
        by simp
    qed
  qed
qed

lemma runEvaluation_ok:
  "\<not> busy inst \<Longrightarrow> instance_ok inst \<Longrightarrow> instance_ok (runEvaluation inst r)"
  by (auto simp: instance_ok_def runEvaluation_def)

lemma cleanup_instance_ok:
  assumes "instance_ok inst" "\<forall>(r', h) \<in> set (running inst). req_id r' = req_id r"
  shows "instance_ok (cleanup_instance r inst)"
proof -
  have "filter (\<lambda>(r', h). req_id r' \<noteq> req_id r) (running inst) = []"
    using assms(2) by (auto simp: filter_empty_conv)
  then show ?thesis
    by (cases "queue inst") (auto simp: cleanup_instance_def instance_ok_def runEvaluation_def Let_def)
qed

lemma store_closure_ok:
  "instance_ok inst \<Longrightarrow> instance_ok (inst\<lparr>running := store_closure r h (running inst)\<rparr>)"
  by (auto simp: instance_ok_def store_closure_def)

lemma call_listener_ok:
  assumes ok: "instance_ok inst" and run: "running inst = [(r, h)]"
    and one: "single_bestmove inst chunk"
  shows "case call_listener chunk (r, h) inst of
           Inl (e, inst') \<Rightarrow> instance_ok inst'
         | Inr inst' \<Rightarrow> instance_ok inst'"
proof -
  let ?res = "onData (cleanup_instance r) (req_fen r) (req_depth r) chunk (with_env h inst)"
  from one run have "length (bestmove_lines (outputText h @ chunk)) \<le> 1"
    by (simp add: single_bestmove_def)
  then have "env (state_after ?res) = inst \<or> env (state_after ?res) = cleanup_instance r inst"
    using process_lines_env_one [of "split_on CHR 0x0A (outputText h @ chunk)"
        "cleanup_instance r" "req_fen r" "req_depth r"
        "(with_env h inst)\<lparr>outputText := outputText h @ chunk\<rparr>"]
    by (simp add: onData_def bestmove_lines_def with_env_def)
  moreover have "instance_ok (cleanup_instance r inst)"
    using ok run by (intro cleanup_instance_ok) simp_all
  ultimately have "instance_ok (env (state_after ?res))"
    using ok by auto
  then have "instance_ok ((env (state_after ?res))
      \<lparr>running := store_closure r (state_after ?res) (running (env (state_after ?res)))\<rparr>)"
    by (rule store_closure_ok)
  then show ?thesis
    by (cases ?res) (auto simp: call_listener_def)
qed

lemma emit_data_ok:
  assumes "instance_ok inst" "single_bestmove inst chunk"
  shows "case emit_data chunk inst of
           Inl (e, inst') \<Rightarrow> instance_ok inst'
         | Inr inst' \<Rightarrow> instance_ok inst'"
proof (cases "running inst")
  case Nil
  with assms show ?thesis by (simp add: emit_data_def)
next
  case (Cons l ls)
  with assms(1) have ls: "ls = []" by (simp add: instance_ok_def)
  obtain r h where l: "l = (r, h)" by (cases l)
  from call_listener_ok [OF assms(1) _ assms(2), of r h] Cons ls l
  show ?thesis
    by (auto simp: emit_data_def split: sum.splits)
qed

lemma fire_timeout_ok:
  assumes "instance_ok inst"
  shows "instance_ok (fire_timeout r inst)"
proof (cases "req_id r \<in> set (map (req_id \<circ> fst) (running inst))")
  case False
  with assms show ?thesis by (simp add: fire_timeout_def)
next
  case True
  from assms have "length (running inst) \<le> 1" by (simp add: instance_ok_def)
  with True have "\<forall>(r', h) \<in> set (running inst). req_id r' = req_id r"
    by (cases "running inst") auto
  with assms True show ?thesis
    by (simp add: fire_timeout_def cleanup_instance_ok)
qed

lemma set_updateD: "x \<in> set (xs[k := y]) \<Longrightarrow> x = y \<or> x \<in> set xs"
  using set_update_subset_insert [of xs k y] by auto

lemma evaluate_ok:
  assumes "\<forall>inst\<in>set instances. instance_ok inst" "evaluate instances r = Inr instances'"
  shows "\<forall>inst\<in>set instances'. instance_ok inst"
proof (cases "findIndex (\<lambda>i. \<not> busy i) instances")
  case (Some k)
  then have k: "k < length instances" "\<not> busy (instances ! k)"
    by (simp_all add: findIndex_Some)
  with assms(1) have "instance_ok (runEvaluation (instances ! k) r)"
    by (simp add: runEvaluation_ok)
  with assms Some k show ?thesis
    by (auto simp: evaluate_def dest!: set_updateD)
next
  case None
  with assms(2) have ne: "instances \<noteq> []"
    by (auto simp: evaluate_def split: if_splits)
  from None have all: "\<forall>x\<in>set instances. busy x"
    by (simp add: findIndex_None)
  with ne have b0: "busy (instances ! 0)" by (cases instances) auto
  from assms(1) ne have "instance_ok (instances ! 0)" by (cases instances) auto
  with b0 have "instance_ok ((instances ! 0)\<lparr>queue := queue (instances ! 0) @ [r]\<rparr>)"
    by (simp add: instance_ok_def)
  with assms None ne b0 show ?thesis
    by (auto simp: evaluate_def dest!: set_updateD)
qed

lemma pool_step_ok:
  assumes "\<forall>inst\<in>set instances. instance_ok inst"
    and "events_ok instances [ev]"
    and "pool_step instances ev = Inr instances'"
  shows "\<forall>inst\<in>set instances'. instance_ok inst"
proof (cases ev)
  case (Evaluate r)
  with assms show ?thesis by (simp add: pool_step_def evaluate_ok)
next
  case (Data i chunk)
  show ?thesis
  proof (cases "i < length instances")
    case False
    with assms Data show ?thesis by (simp add: pool_step_def)
  next
    case True
    with assms(1) have ok: "instance_ok (instances ! i)" by simp
    from assms(2) Data True have "single_bestmove (instances ! i) chunk" by simp
    from emit_data_ok [OF ok this] assms(1,3) Data True show ?thesis
      by (auto simp: pool_step_def split: sum.splits dest!: set_updateD)
  qed
next
  case (Timeout i r)
  show ?thesis
  proof (cases "i < length instances")
    case False
    with assms Timeout show ?thesis by (simp add: pool_step_def)
  next
    case True
    with assms(1) have "instance_ok (fire_timeout r (instances ! i))"
      by (simp add: fire_timeout_ok)
    with assms(1,3) Timeout True show ?thesis
      by (auto simp: pool_step_def dest!: set_updateD)
  qed
qed

lemma one_in_flight_single_bestmove:
  assumes "\<forall>inst\<in>set instances. instance_ok inst"
    and "events_ok instances evs"
    and "run_events instances evs = Inr instances'"
  shows "\<forall>inst\<in>set instances'. instance_ok inst"
  using assms
proof (induction evs arbitrary: instances)
  case Nil
  then show ?case by simp
next
  case (Cons ev evs)
  from Cons.prems(3) obtain mid where
    mid: "pool_step instances ev = Inr mid" "run_events mid evs = Inr instances'"
    by (auto split: sum.splits)
  from Cons.prems(2) mid(1) have e1: "events_ok instances [ev]" and e2: "events_ok mid evs"
    by (auto split: event.splits)
  from pool_step_ok [OF Cons.prems(1) e1 mid(1)] have "\<forall>inst\<in>set mid. instance_ok inst" .
  from Cons.IH [OF this e2 mid(2)] show ?case .
qed

text \<open>
  A run that satisfies \<open>events_ok\<close>: three requests, the answer to the first one in
  two chunks, and the timeout of the second.
\<close>

lemma one_in_flight_example:
  "events_ok [idle_instance, idle_instance]
     [Evaluate (rq 1), Evaluate (rq 2), Evaluate (rq 3),
      Data 0 (''info depth 10 score cp 12 pv e2e4'' @ [CHR 0x0A] @ ''bestmo''),
      Data 0 (''ve e2e4'' @ [CHR 0x0A]),
      Timeout 1 (rq 2)]
   \<and> run_events [idle_instance, idle_instance]
     [Evaluate (rq 1), Evaluate (rq 2), Evaluate (rq 3),
      Data 0 (''info depth 10 score cp 12 pv e2e4'' @ [CHR 0x0A] @ ''bestmo''),
      Data 0 (''ve e2e4'' @ [CHR 0x0A]),
      Timeout 1 (rq 2)]
     = Inr [\<lparr> busy = True, queue = [], running = [(rq 3, fresh_handler ())],
              dispatched = [rq 1, rq 3] \<rparr>,
            \<lparr> busy = False, queue = [], running = [], dispatched = [rq 2] \<rparr>]"
  by code_simp

text \<open>
  C8. The code at a failing input. A pool of two idle instances takes four requests:
  1 runs on instance 0, 2 on instance 1, 3 and 4 wait in the queue of instance 0. The
  timer of request 1 fires, which starts request 3; the search of request 1 goes on, as
  no \<open>stop\<close> is sent. Then one chunk arrives from instance 0 with the bestmove line of
  search 1 and the bestmove line of search 3. The loop of the handler does not stop at
  the first bestmove line: \<open>cleanup\<close> runs at both, the first run starts request 4 and
  the second clears \<open>busy\<close> while request 4 is in flight. The next request, 5, is run
  on instance 0 at once: requests 4 and 5 are in flight on instance 0 together. In the
  same way, without a timeout, two bestmove lines in one chunk start both queued requests
  3 and 4 together.
\<close>

theorem two_requests_in_flight:
  "run_events [idle_instance, idle_instance]
     [Evaluate (rq 1), Evaluate (rq 2), Evaluate (rq 3), Evaluate (rq 4),
      Timeout 0 (rq 1),
      Data 0 (''bestmove e2e4'' @ [CHR 0x0A] @ ''bestmove d2d4'' @ [CHR 0x0A]),
      Evaluate (rq 5)]
   = Inr [\<lparr> busy = True, queue = [],
            running = [(rq 4, fresh_handler ()), (rq 5, fresh_handler ())],
            dispatched = [rq 1, rq 3, rq 4, rq 5] \<rparr>,
          busy_with (rq 2) []]
   \<and> run_events [idle_instance, idle_instance]
     [Evaluate (rq 1), Evaluate (rq 2), Evaluate (rq 3), Evaluate (rq 4),
      Data 0 (''bestmove e2e4'' @ [CHR 0x0A] @ ''bestmove d2d4'' @ [CHR 0x0A])]
   = Inr [\<lparr> busy = True, queue = [],
            running = [(rq 3, fresh_handler ()), (rq 4, fresh_handler ())],
            dispatched = [rq 1, rq 3, rq 4] \<rparr>,
          busy_with (rq 2) []]"
  by code_simp

section \<open>Properties of the game analyzer\<close>

text \<open>
  C9. When the parser rejects the game text, \<open>analyzeGame\<close> fails with the parser's
  error, no evaluation request is issued and no list of records is returned; an evaluation
  request is issued only for a text the parser accepted.
\<close>

theorem invalid_pgn_fails_first:
  "(loadPgn lib pgn = Inl e \<longrightarrow>
      analyzeGame lib evaluatePosition pgn userColor depth = ([], Inl e))
   \<and> (fst (analyzeGame lib evaluatePosition pgn userColor depth) \<noteq> []
        \<longrightarrow> (\<exists>moves. loadPgn lib pgn = Inr moves))"
  by (auto simp: analyzeGame_def split: sum.splits)

theorem invalid_pgn_fails_first_witness:
  "loadPgn sample_lib ''1. e9'' = Inl ''Invalid move in PGN''
   \<and> analyzeGame sample_lib (\<lambda>i p d. Inr \<lparr> eval_type = Cp, eval_value = 0, bestMove = ''e2e4'', pv = [] \<rparr>)
         ''1. e9'' White 12
       = ([], Inl ''Invalid move in PGN'')
   \<and> fst (analyzeGame sample_lib
         (\<lambda>i p d. Inr \<lparr> eval_type = Cp, eval_value = 0, bestMove = ''e2e4'', pv = [] \<rparr>)
         ''1. e4'' White 12) = [(''start'', 12)]
   \<and> loadPgn sample_lib ''1. e4''
       = Inr [\<lparr> san = ''e4'', from_square = ''e2'', to_square = ''e4'', promotion = None \<rparr>]"
proof -
  have h: "loadPgn sample_lib ''1. e9'' = Inl ''Invalid move in PGN''"
    by simp
  have g: "fst (analyzeGame sample_lib
         (\<lambda>i p d. Inr \<lparr> eval_type = Cp, eval_value = 0, bestMove = ''e2e4'', pv = [] \<rparr>)
         ''1. e4'' White 12) = [(''start'', 12)]"
    by (simp add: analyzeGame_def Let_def)
  from invalid_pgn_fails_first [of sample_lib "''1. e9''" "''Invalid move in PGN''"
      "\<lambda>i p d. Inr \<lparr> eval_type = Cp, eval_value = 0, bestMove = ''e2e4'', pv = [] \<rparr>" White 12] h g
  show ?thesis by simp
qed


lemma analyze_loop_results:
  "analyze_loop lib ev c d i chess ms results issued = (issued', Inr rs) \<Longrightarrow>
   length rs = length results + length ms
   \<and> take (length results) rs = results
   \<and> (\<forall>j<length ms. ply (rs ! (length results + j)) = i + j + 1)
   \<and> length issued' = length issued + length ms"
proof (induction ms arbitrary: i chess results issued)
  case Nil
  then show ?case by simp
next
  case (Cons m ms)
  from Cons.prems obtain v chess' where
    v: "ev i (fenOf lib chess) d = Inr v" and
    c: "makeMove lib chess m = Inr chess'"
    by (auto simp: Let_def split: sum.splits)
  let ?r = "\<lparr> ply = i + 1, moveNumber = i div 2 + 1, fen = fenOf lib chess,
                       movePlayed = san m,
                       movePlayedUci = from_square m @ to_square m
                          @ (case promotion m of Some p \<Rightarrow> p | None \<Rightarrow> []),
                       evaluation = v,
                       isUserMove = ((c = White \<and> i mod 2 = 0) \<or> (c = Black \<and> \<not> i mod 2 = 0)) \<rparr>"
  from Cons.prems v c have rec:
    "analyze_loop lib ev c d (i + 1) chess' ms (results @ [?r]) (issued @ [(fenOf lib chess, d)])
       = (issued', Inr rs)"
    by (simp add: Let_def)
  from Cons.IH [OF rec] have ih:
    "length rs = length (results @ [?r]) + length ms"
    "take (length (results @ [?r])) rs = results @ [?r]"
    "\<forall>j<length ms. ply (rs ! (length (results @ [?r]) + j)) = i + 1 + j + 1"
    "length issued' = length (issued @ [(fenOf lib chess, d)]) + length ms"
    by auto
  have t: "take (length results) rs = results"
  proof -
    have "take (length results) rs = take (length results) (take (length (results @ [?r])) rs)"
      by (simp add: min_def)
    also have "\<dots> = results" unfolding ih(2) by simp
    finally show ?thesis .
  qed
  have p: "ply (rs ! (length results + j)) = i + j + 1" if "j < length (m # ms)" for j
  proof (cases j)
    case 0
    have "rs ! length results = (take (length (results @ [?r])) rs) ! length results"
      by simp
    also have "\<dots> = ?r" unfolding ih(2) by simp
    finally show ?thesis using 0 by simp
  next
    case (Suc n)
    with that ih(3) show ?thesis by auto
  qed
  from ih(1) ih(4) t p show ?case by auto
qed

lemma analyzeGame_ply:
  assumes "analyzeGame lib ev pgn c d = (issued, Inr rs)"
  shows "length issued = length rs \<and> (\<forall>j<length rs. ply (rs ! j) = j + 1)"
proof -
  from assms obtain moves where
    "analyze_loop lib ev c d 0 (reset lib) moves [] [] = (issued, Inr rs)"
    by (auto simp: analyzeGame_def split: sum.splits)
  from analyze_loop_results [OF this] show ?thesis by simp
qed

end
